theory Spec2Isabelle
  imports Main "HOL-Library.Log_Nat"
begin

section \<open>JavaScript strings\<close>

text \<open>
  A JavaScript string is a sequence of UTF-16 code units. The model uses \<^typ>\<open>string\<close>,
  whose characters are the code units U+0000 to U+00FF (Latin-1); the classes below are
  the ECMAScript character classes restricted to that range.
\<close>

definition isSpace :: "char \<Rightarrow> bool" where
  \<comment> \<open>\<open>\s\<close>, and the characters removed by \<open>String.prototype.trim\<close>\<close>
  "isSpace c \<longleftrightarrow>
     c \<in> set [CHR 0x09, CHR 0x0A, CHR 0x0B, CHR 0x0C, CHR 0x0D, CHR 0x20, CHR 0xA0]"

definition isLineTerminator :: "char \<Rightarrow> bool" where
  \<comment> \<open>the characters that \<open>.\<close> does not match\<close>
  "isLineTerminator c \<longleftrightarrow> c = CHR 0x0A \<or> c = CHR 0x0D"

definition isDigit :: "char \<Rightarrow> bool" where
  "isDigit c \<longleftrightarrow> c \<in> set ''0123456789''"

definition isWordChar :: "char \<Rightarrow> bool" where
  \<comment> \<open>\<open>\w\<close>\<close>
  "isWordChar c \<longleftrightarrow>
     c \<in> set ''abcdefghijklmnopqrstuvwxyzABCDEFGHIJKLMNOPQRSTUVWXYZ0123456789_''"

definition upperChars :: string where
  "upperChars = ''ABCDEFGHIJKLMNOPQRSTUVWXYZ'' @
     [CHR 0xC0, CHR 0xC1, CHR 0xC2, CHR 0xC3, CHR 0xC4, CHR 0xC5, CHR 0xC6, CHR 0xC7,
      CHR 0xC8, CHR 0xC9, CHR 0xCA, CHR 0xCB, CHR 0xCC, CHR 0xCD, CHR 0xCE, CHR 0xCF,
      CHR 0xD0, CHR 0xD1, CHR 0xD2, CHR 0xD3, CHR 0xD4, CHR 0xD5, CHR 0xD6,
      CHR 0xD8, CHR 0xD9, CHR 0xDA, CHR 0xDB, CHR 0xDC, CHR 0xDD, CHR 0xDE]"

definition lowerChars :: string where
  "lowerChars = ''abcdefghijklmnopqrstuvwxyz'' @
     [CHR 0xE0, CHR 0xE1, CHR 0xE2, CHR 0xE3, CHR 0xE4, CHR 0xE5, CHR 0xE6, CHR 0xE7,
      CHR 0xE8, CHR 0xE9, CHR 0xEA, CHR 0xEB, CHR 0xEC, CHR 0xED, CHR 0xEE, CHR 0xEF,
      CHR 0xF0, CHR 0xF1, CHR 0xF2, CHR 0xF3, CHR 0xF4, CHR 0xF5, CHR 0xF6,
      CHR 0xF8, CHR 0xF9, CHR 0xFA, CHR 0xFB, CHR 0xFC, CHR 0xFD, CHR 0xFE]"

definition lowerChar :: "char \<Rightarrow> char" where
  "lowerChar c = (case map_of (zip upperChars lowerChars) c of Some l \<Rightarrow> l | None \<Rightarrow> c)"

definition toLowerCase :: "string \<Rightarrow> string" where
  "toLowerCase s = map lowerChar s"

definition trim :: "string \<Rightarrow> string" where
  "trim s = rev (dropWhile isSpace (rev (dropWhile isSpace s)))"

fun startsWith :: "string \<Rightarrow> string \<Rightarrow> bool" where
  "startsWith s [] = True"
| "startsWith [] (c # cs) = False"
| "startsWith (x # xs) (c # cs) = (x = c \<and> startsWith xs cs)"

fun includesStr :: "string \<Rightarrow> string \<Rightarrow> bool" where
  "includesStr [] sub = (sub = [])"
| "includesStr (x # xs) sub = (startsWith (x # xs) sub \<or> includesStr xs sub)"

fun splitOn :: "char \<Rightarrow> string \<Rightarrow> string list" where
  \<comment> \<open>\<open>s.split(c)\<close> for a one-character separator\<close>
  "splitOn d [] = [[]]"
| "splitOn d (c # cs) =
     (if c = d then [] # splitOn d cs
      else (case splitOn d cs of [] \<Rightarrow> [[c]] | l # ls \<Rightarrow> (c # l) # ls))"

fun joinWith :: "string \<Rightarrow> string list \<Rightarrow> string" where
  \<comment> \<open>\<open>xs.join(sep)\<close>\<close>
  "joinWith sep [] = []"
| "joinWith sep [x] = x"
| "joinWith sep (x # y # ys) = x @ sep @ joinWith sep (y # ys)"

definition newline :: char where
  "newline = CHR 0x0A"

section \<open>Regular expressions\<close>

text \<open>
  The patterns of the source are kept as data. \<open>ms\<close> is a backtracking matcher: it
  returns every way the pattern can match at the current position, in the order in which
  a backtracking engine tries them (an alternative's left branch first, a greedy
  quantifier's longer iteration first), so the head of the list is the match that
  \<open>RegExp.prototype.exec\<close> reports. A matcher state is the character before the current
  position (for \<open>^\<close> and \<open>\b\<close>), the remaining input and the captures made so far.
\<close>

datatype rx =
    Chr char
  | Cls "char \<Rightarrow> bool"
  | Seq rx rx
  | Alt rx rx
  | Star rx
  | Grp nat rx
  | Bol
  | Eol
  | Wb
  | Eps

type_synonym caps = "(nat \<times> string) list"
type_synonym mstate = "char option \<times> string \<times> caps"

definition rest :: "mstate \<Rightarrow> string" where
  "rest st = fst (snd st)"

fun star :: "nat \<Rightarrow> (mstate \<Rightarrow> mstate list) \<Rightarrow> mstate \<Rightarrow> mstate list" where
  \<comment> \<open>greedy iteration; an iteration that consumes nothing is rejected, as in ECMAScript\<close>
  "star 0 f st = [st]"
| "star (Suc n) f st =
     concat (map (star n f) (filter (\<lambda>st'. length (rest st') < length (rest st)) (f st))) @ [st]"

definition atWordBoundary :: "char option \<Rightarrow> string \<Rightarrow> bool" where
  "atWordBoundary p r \<longleftrightarrow>
     (case p of None \<Rightarrow> False | Some c \<Rightarrow> isWordChar c) \<noteq>
     (case r of [] \<Rightarrow> False | c # _ \<Rightarrow> isWordChar c)"

primrec ms :: "rx \<Rightarrow> mstate \<Rightarrow> mstate list" where
  "ms (Chr c) = (\<lambda>(p, r, g). case r of [] \<Rightarrow> [] | x # xs \<Rightarrow> if x = c then [(Some x, xs, g)] else [])"
| "ms (Cls P) = (\<lambda>(p, r, g). case r of [] \<Rightarrow> [] | x # xs \<Rightarrow> if P x then [(Some x, xs, g)] else [])"
| "ms (Seq a b) = (\<lambda>st. concat (map (ms b) (ms a st)))"
| "ms (Alt a b) = (\<lambda>st. ms a st @ ms b st)"
| "ms (Star a) = (\<lambda>st. star (Suc (length (rest st))) (ms a) st)"
| "ms (Grp k a) = (\<lambda>(p, r, g).
     map (\<lambda>(p', r', g'). (p', r', (k, take (length r - length r') r) # g')) (ms a (p, r, g)))"
| "ms Bol = (\<lambda>(p, r, g). if p = None then [(p, r, g)] else [])"
| "ms Eol = (\<lambda>(p, r, g). if r = [] then [(p, r, g)] else [])"
| "ms Wb = (\<lambda>(p, r, g). if atWordBoundary p r then [(p, r, g)] else [])"
| "ms Eps = (\<lambda>st. [st])"

definition Plus :: "rx \<Rightarrow> rx" where
  "Plus a = Seq a (Star a)"

definition Opt :: "rx \<Rightarrow> rx" where
  "Opt a = Alt a Eps"

fun seqs :: "rx list \<Rightarrow> rx" where
  "seqs [] = Eps"
| "seqs [a] = a"
| "seqs (a # b # bs) = Seq a (seqs (b # bs))"

fun alts :: "rx list \<Rightarrow> rx" where
  "alts [] = Eps"
| "alts [a] = a"
| "alts (a # b # bs) = Alt a (alts (b # bs))"

definition lit :: "string \<Rightarrow> rx" where
  \<comment> \<open>a literal, case-sensitive\<close>
  "lit s = seqs (map Chr s)"

definition liti :: "string \<Rightarrow> rx" where
  \<comment> \<open>a literal under the \<open>i\<close> flag\<close>
  "liti s = seqs (map (\<lambda>x. Cls (\<lambda>c. lowerChar c = lowerChar x)) s)"

text \<open>
  \<open>searchFrom r p s i\<close> looks for the leftmost match in the suffix \<open>s\<close> that starts at
  index \<open>i\<close> of the subject (\<open>p\<close> is the character before it). It returns the index of
  the match, the suffix that starts there and the matcher state at the end of the match.
\<close>

fun searchFrom :: "rx \<Rightarrow> char option \<Rightarrow> string \<Rightarrow> nat \<Rightarrow> (nat \<times> string \<times> mstate) option" where
  "searchFrom r p [] i = (case ms r (p, [], []) of [] \<Rightarrow> None | st # _ \<Rightarrow> Some (i, [], st))"
| "searchFrom r p (c # cs) i =
     (case ms r (p, c # cs, []) of
        [] \<Rightarrow> searchFrom r (Some c) cs (Suc i)
      | st # _ \<Rightarrow> Some (i, c # cs, st))"

definition test :: "rx \<Rightarrow> string \<Rightarrow> bool" where
  \<comment> \<open>\<open>r.test(s)\<close> for a pattern without the \<open>g\<close> flag\<close>
  "test r s \<longleftrightarrow> searchFrom r None s 0 \<noteq> None"

definition capture :: "nat \<Rightarrow> caps \<Rightarrow> string option" where
  "capture k g = map_of g k"

primrec minlen :: "rx \<Rightarrow> nat" where
  \<comment> \<open>a lower bound of the number of characters that a match consumes\<close>
  "minlen (Chr c) = 1"
| "minlen (Cls P) = 1"
| "minlen (Seq a b) = minlen a + minlen b"
| "minlen (Alt a b) = min (minlen a) (minlen b)"
| "minlen (Star a) = 0"
| "minlen (Grp k a) = minlen a"
| "minlen Bol = 0"
| "minlen Eol = 0"
| "minlen Wb = 0"
| "minlen Eps = 0"

subsection \<open>Matches consume input\<close>

lemma searchFrom_suffix:
  "searchFrom r p s i = Some (idx, sfx, st) \<Longrightarrow> length sfx \<le> length s"
proof (induction s arbitrary: p i)
  case Nil
  then show ?case by (auto split: list.splits)
next
  case (Cons c cs)
  show ?case
  proof (cases "ms r (p, c # cs, [])")
    case Nil
    with Cons.prems have "searchFrom r (Some c) cs (Suc i) = Some (idx, sfx, st)" by simp
    from Cons.IH [OF this] show ?thesis by simp
  next
    case (Cons st' sts)
    with Cons.prems show ?thesis by simp
  qed
qed

lemma star_length:
  assumes "\<And>x y. y \<in> set (f x) \<Longrightarrow> length (rest y) \<le> length (rest x)"
  shows "st' \<in> set (star n f st) \<Longrightarrow> length (rest st') \<le> length (rest st)"
proof (induction n arbitrary: st)
  case 0
  then show ?case by simp
next
  case (Suc n)
  from Suc.prems consider "st' = st"
    | y where "y \<in> set (f st)" "length (rest y) < length (rest st)" "st' \<in> set (star n f y)"
    by auto
  then show ?case
  proof cases
    case 1
    then show ?thesis by simp
  next
    case 2
    from Suc.IH [OF 2(3)] 2(2) show ?thesis by simp
  qed
qed

lemma ms_length:
  "st' \<in> set (ms a st) \<Longrightarrow> length (rest st') + minlen a \<le> length (rest st)"
proof (induction a arbitrary: st st')
  case (Chr c)
  then show ?case by (cases st) (auto simp: rest_def split: list.splits if_splits)
next
  case (Cls P)
  then show ?case by (cases st) (auto simp: rest_def split: list.splits if_splits)
next
  case (Seq a b)
  from Seq.prems obtain m where m: "m \<in> set (ms a st)" "st' \<in> set (ms b m)" by auto
  from Seq.IH(1) [OF m(1)] Seq.IH(2) [OF m(2)] show ?case by simp
next
  case (Alt a b)
  from Alt.prems have "st' \<in> set (ms a st) \<or> st' \<in> set (ms b st)" by simp
  then show ?case using Alt.IH by (auto dest!: Alt.IH simp: min_def)
next
  case (Star a)
  have "\<And>x y. y \<in> set (ms a x) \<Longrightarrow> length (rest y) \<le> length (rest x)"
    using Star.IH by fastforce
  moreover have "st' \<in> set (star (Suc (length (rest st))) (ms a) st)"
    using Star.prems by (simp del: star.simps)
  ultimately have "length (rest st') \<le> length (rest st)"
    by (rule star_length)
  then show ?case by simp
next
  case (Grp k a)
  obtain p r g where st: "st = (p, r, g)" by (cases st)
  with Grp.prems obtain p' r' g' where m: "(p', r', g') \<in> set (ms a (p, r, g))"
    and st': "st' = (p', r', (k, take (length r - length r') r) # g')"
    by auto
  from Grp.IH [OF m] st st' show ?case by (simp add: rest_def)
next
  case Bol
  then show ?case by (cases st) (auto split: if_splits)
next
  case Eol
  then show ?case by (cases st) (auto split: if_splits)
next
  case Wb
  then show ?case by (cases st) (auto split: if_splits)
next
  case Eps
  then show ?case by simp
qed

lemma searchFrom_ms:
  "searchFrom r p s i = Some (idx, sfx, st) \<Longrightarrow> \<exists>q. st \<in> set (ms r (q, sfx, []))"
proof (induction s arbitrary: p i)
  case Nil
  then show ?case by (auto split: list.splits intro!: exI [of _ p])
next
  case (Cons c cs)
  show ?case
  proof (cases "ms r (p, c # cs, [])")
    case Nil
    with Cons.prems have "searchFrom r (Some c) cs (Suc i) = Some (idx, sfx, st)" by simp
    from Cons.IH [OF this] show ?thesis .
  next
    case (Cons st' sts)
    with Cons.prems have "st = st'" "sfx = c # cs" by simp_all
    with Cons show ?thesis by (intro exI [of _ p]) simp
  qed
qed

text \<open>
  The loop \<open>while ((match = regex.exec(content)) !== null)\<close> of a pattern with the
  \<open>g\<close> flag: each call searches from \<open>lastIndex\<close>, which \<open>exec\<close> sets to the end of
  the match. After an empty match \<open>lastIndex\<close> does not move and the loop of the source
  never ends: the model returns \<open>None\<close> there.
\<close>

function execAll :: "rx \<Rightarrow> char option \<Rightarrow> string \<Rightarrow> nat \<Rightarrow> (nat \<times> caps) list option" where
  "execAll r p s i =
     (case searchFrom r p s i of
        None \<Rightarrow> Some []
      | Some (idx, sfx, (p', s', g)) \<Rightarrow>
          if length s' < length sfx
          then map_option (\<lambda>ms. (idx, g) # ms) (execAll r p' s' (idx + (length sfx - length s')))
          else None)"
  by pat_completeness auto
termination
  by (relation "measure (\<lambda>(r, p, s, i). length s)") (auto dest: searchFrom_suffix)

declare execAll.simps [simp del]

definition replaceFirst :: "rx \<Rightarrow> string \<Rightarrow> string \<Rightarrow> string" where
  \<comment> \<open>\<open>s.replace(r, t)\<close> for a pattern without the \<open>g\<close> flag and a literal \<open>t\<close>\<close>
  "replaceFirst r s t =
     (case searchFrom r None s 0 of
        None \<Rightarrow> s
      | Some (idx, sfx, st) \<Rightarrow> take idx s @ t @ rest st)"

text \<open>
  \<open>r.test(s)\<close> for a pattern with the \<open>g\<close> flag: the search starts at the
  \<open>lastIndex\<close> that the pattern object holds and the call stores a new one, the end of
  the match, or 0 when there is none.
\<close>

definition testG :: "rx \<Rightarrow> string \<Rightarrow> nat \<Rightarrow> bool \<times> nat" where
  "testG r s lastIndex =
     (if length s < lastIndex then (False, 0)
      else (case searchFrom r (if lastIndex = 0 then None else Some (s ! (lastIndex - 1)))
                   (drop lastIndex s) lastIndex of
              None \<Rightarrow> (False, 0)
            | Some (idx, sfx, st) \<Rightarrow> (True, idx + (length sfx - length (rest st)))))"

fun foldOpt :: "('a \<Rightarrow> 'b \<Rightarrow> 'b option) \<Rightarrow> 'a list \<Rightarrow> 'b \<Rightarrow> 'b option" where
  "foldOpt f [] acc = Some acc"
| "foldOpt f (x # xs) acc = (case f x acc of None \<Rightarrow> None | Some acc' \<Rightarrow> foldOpt f xs acc')"

definition setAdd :: "'a list \<Rightarrow> 'a \<Rightarrow> 'a list" where
  \<comment> \<open>\<open>Set.prototype.add\<close>; a \<open>Set\<close> keeps its elements in insertion order\<close>
  "setAdd xs x = (if x \<in> set xs then xs else xs @ [x])"

lemma searchFrom_rest:
  assumes "searchFrom r p s i = Some (idx, sfx, (p', s', g))"
  shows "length s' \<le> length sfx" and "length sfx \<le> length s"
proof -
  from searchFrom_ms [OF assms] obtain q where "(p', s', g) \<in> set (ms r (q, sfx, []))" ..
  from ms_length [OF this] show "length s' \<le> length sfx" by (simp add: rest_def)
  from searchFrom_suffix [OF assms] show "length sfx \<le> length s" .
qed

text \<open>
  \<open>matchesG r p s i\<close> lists the matches (index and length) of a pattern with the \<open>g\<close>
  flag the way \<open>String.prototype.replace\<close> and \<open>String.prototype.match\<close> walk a
  string: after an empty match the search moves on by one character.
\<close>

function matchesG :: "rx \<Rightarrow> char option \<Rightarrow> string \<Rightarrow> nat \<Rightarrow> (nat \<times> nat) list" where
  "matchesG r p s i =
     (case searchFrom r p s i of
        None \<Rightarrow> []
      | Some (idx, sfx, (p', s', g)) \<Rightarrow>
          (idx, length sfx - length s') #
          (if length s' < length sfx
           then matchesG r p' s' (idx + (length sfx - length s'))
           else (case s' of
                   [] \<Rightarrow> []
                 | c # cs \<Rightarrow> matchesG r (Some c) cs (Suc idx))))"
  by pat_completeness auto
termination
proof (relation "measure (\<lambda>(r, p, s, i). length s)", goal_cases)
  case 1
  show ?case by simp
next
  case (2 r p s i m idx rst sfx st p' rst' s' g)
  then have "searchFrom r p s i = Some (idx, sfx, (p', s', g))" by simp
  from searchFrom_rest(2) [OF this] 2 show ?case by simp
next
  case (3 r p s i m idx rst sfx st p' rst' s' g c cs)
  then have "searchFrom r p s i = Some (idx, sfx, (p', c # cs, g))" by simp
  from searchFrom_rest [OF this] show ?case by simp
qed

declare matchesG.simps [simp del]

fun rebuild :: "(string \<Rightarrow> string) \<Rightarrow> string \<Rightarrow> nat \<Rightarrow> (nat \<times> nat) list \<Rightarrow> string" where
  \<comment> \<open>the text from \<open>pos\<close> on, with each match replaced by the image of the matched text\<close>
  "rebuild f s pos [] = drop pos s"
| "rebuild f s pos ((idx, n) # rs) =
     take (idx - pos) (drop pos s) @ f (take n (drop idx s)) @ rebuild f s (idx + n) rs"

definition replaceAllWith :: "rx \<Rightarrow> (string \<Rightarrow> string) \<Rightarrow> string \<Rightarrow> string" where
  \<comment> \<open>\<open>s.replace(r, f)\<close> for a pattern with the \<open>g\<close> flag\<close>
  "replaceAllWith r f s = rebuild f s 0 (matchesG r None s 0)"

definition matchAll :: "rx \<Rightarrow> string \<Rightarrow> string list" where
  \<comment> \<open>\<open>s.match(r) ?? []\<close> for a pattern with the \<open>g\<close> flag\<close>
  "matchAll r s = map (\<lambda>(idx, n). take n (drop idx s)) (matchesG r None s 0)"

fun findIndex :: "('a \<Rightarrow> bool) \<Rightarrow> 'a list \<Rightarrow> nat option" where
  \<comment> \<open>\<open>xs.findIndex(P)\<close>, with \<open>None\<close> for -1\<close>
  "findIndex P [] = None"
| "findIndex P (x # xs) = (if P x then Some 0 else map_option Suc (findIndex P xs))"

section \<open>The parser (parser.ts)\<close>

record ParsedSection =
  title :: string
  content :: string
  startLine :: int
  endLine :: int

record ParsedAgentsMd =
  rawContent :: string
  sections :: "ParsedSection list"
  mentionedPaths :: "string list"
  mentionedScripts :: "string list"
  mentionedDependencies :: "string list"
  mentionedFrameworks :: "string list"
  lines :: "string list"

definition backtick :: char where
  "backtick = CHR 0x60"

definition notBacktick :: rx where
  "notBacktick = Cls (\<lambda>c. c \<noteq> backtick)"

definition PATH_PATTERNS :: "rx list" where
  "PATH_PATTERNS =
    [seqs [Chr backtick,
           Grp 1 (Seq (Cls (\<lambda>c. c \<in> set ''./''))
                      (Plus (Cls (\<lambda>c. \<not> isSpace c \<and> c \<noteq> backtick)))),
           Chr backtick],
     seqs [lit ''**'',
           Grp 1 (Seq (Cls (\<lambda>c. c \<in> set ''./''))
                      (Plus (Cls (\<lambda>c. \<not> isSpace c \<and> c \<noteq> CHR ''*'')))),
           lit ''**''],
     seqs [alts [liti ''in'', liti ''at'', liti ''to'', liti ''from'', liti ''see''],
           Plus (Cls isSpace), Chr backtick,
           Grp 1 (seqs [Plus notBacktick, Chr CHR ''/'', Plus notBacktick]),
           Chr backtick],
     seqs [alts [liti ''directory'', liti ''folder'', liti ''file'', liti ''path''],
           Chr CHR '':'', Star (Cls isSpace), Chr backtick,
           Grp 1 (Plus notBacktick),
           Chr backtick]]"

definition scriptName :: rx where
  \<comment> \<open>\<open>([\w:-]+)\<close>\<close>
  "scriptName = Grp 1 (Plus (Cls (\<lambda>c. isWordChar c \<or> c = CHR '':'' \<or> c = CHR ''-'')))"

definition SCRIPT_PATTERNS :: "rx list" where
  "SCRIPT_PATTERNS =
    [seqs [Chr backtick, lit ''npm run '', scriptName, Chr backtick],
     seqs [Chr backtick, lit ''yarn '', scriptName, Chr backtick],
     seqs [Chr backtick, lit ''pnpm '', scriptName, Chr backtick],
     seqs [Chr backtick, lit ''bun '', scriptName, Chr backtick],
     seqs [lit ''npm run '', scriptName],
     seqs [lit ''yarn '', scriptName]]"

definition DEPENDENCY_PATTERNS :: "rx list" where
  "DEPENDENCY_PATTERNS =
    [seqs [Chr backtick,
           Grp 1 (seqs [Cls (\<lambda>c. c = CHR ''@'' \<or> isWordChar c),
                        Plus (Cls (\<lambda>c. isWordChar c \<or> c \<in> set ''/.-'')),
                        Chr CHR ''@'',
                        Plus (Cls (\<lambda>c. isDigit c \<or> c \<in> set ''.^~*''))]),
           Chr backtick],
     seqs [Wb,
           Grp 1 (alts (map liti
             [''react'', ''vue'', ''angular'', ''next'', ''nuxt'', ''svelte'', ''solid'',
              ''astro'', ''remix'', ''express'', ''fastify'', ''hono'', ''nestjs'', ''prisma'',
              ''drizzle'', ''zod'', ''typescript''])),
           Wb]]"

definition NEGATING_PHRASES :: "rx list" where
  "NEGATING_PHRASES =
    [liti ''no longer'', liti ''removed'', liti ''not exist'',
     liti (''doesn'' @ [CHR 0x27] @ ''t exist''), liti ''does not exist'', liti ''deprecated'']"

fun indexIn :: "char \<Rightarrow> string \<Rightarrow> nat \<Rightarrow> int" where
  "indexIn c [] i = - 1"
| "indexIn c (x # xs) i = (if x = c then int i else indexIn c xs (Suc i))"

definition indexOf :: "string \<Rightarrow> char \<Rightarrow> nat \<Rightarrow> int" where
  \<comment> \<open>\<open>s.indexOf(c, from)\<close>: the first index at or after \<open>from\<close>, or -1\<close>
  "indexOf s c from = indexIn c (drop from s) from"

fun lastIn :: "char \<Rightarrow> string \<Rightarrow> nat \<Rightarrow> int \<Rightarrow> int" where
  "lastIn c [] i found = found"
| "lastIn c (x # xs) i found = lastIn c xs (Suc i) (if x = c then int i else found)"

definition lastIndexOf :: "string \<Rightarrow> char \<Rightarrow> nat \<Rightarrow> int" where
  \<comment> \<open>\<open>s.lastIndexOf(c, from)\<close>: the last index at or before \<open>from\<close>, or -1\<close>
  "lastIndexOf s c from = lastIn c (take (Suc from) s) 0 (- 1)"

definition substring :: "string \<Rightarrow> int \<Rightarrow> int \<Rightarrow> string" where
  \<comment> \<open>\<open>s.substring(a, b)\<close>: both ends are clamped to the string and swapped if out of order\<close>
  "substring s a b =
     (let a' = min (max a 0) (int (length s));
          b' = min (max b 0) (int (length s));
          lo = min a' b'; hi = max a' b'
      in take (nat (hi - lo)) (drop (nat lo) s))"

definition enclosingLine :: "string \<Rightarrow> nat \<Rightarrow> string" where
  "enclosingLine doc matchIndex =
     (let lineStart = lastIndexOf doc newline matchIndex + 1;
          lineEnd = indexOf doc newline matchIndex
      in substring doc lineStart (if lineEnd = - 1 then int (length doc) else lineEnd))"

definition isInNegatingContext :: "string \<Rightarrow> nat \<Rightarrow> bool" where
  "isInNegatingContext doc matchIndex \<longleftrightarrow>
     (\<exists>p \<in> set NEGATING_PHRASES. test p (enclosingLine doc matchIndex))"

definition headingRx :: rx where
  \<comment> \<open>\<open>/^(#{1,3})\s+(.+)/\<close>\<close>
  "headingRx =
     seqs [Bol,
           Grp 1 (Seq (Chr CHR ''#'') (Opt (Seq (Chr CHR ''#'') (Opt (Chr CHR ''#''))))),
           Plus (Cls isSpace),
           Grp 2 (Plus (Cls (\<lambda>c. \<not> isLineTerminator c)))]"

definition headingMatch :: "string \<Rightarrow> string option" where
  \<comment> \<open>\<open>line.match(...)\<close>; the result is capture 2 of the match\<close>
  "headingMatch line =
     (case searchFrom headingRx None line 0 of
        None \<Rightarrow> None
      | Some (idx, sfx, st) \<Rightarrow> capture 2 (snd (snd st)))"

text \<open>
  The \<open>forEach\<close> of \<open>parseSections\<close>, with the two variables it updates: the sections
  closed so far and the section that is open.
\<close>

fun sectionsLoop ::
  "string list \<Rightarrow> nat \<Rightarrow> ParsedSection list \<Rightarrow> ParsedSection option
     \<Rightarrow> ParsedSection list \<times> ParsedSection option" where
  "sectionsLoop [] index secs cur = (secs, cur)"
| "sectionsLoop (line # ls) index secs cur =
     (case headingMatch line of
        Some h \<Rightarrow>
          sectionsLoop ls (Suc index)
            (case cur of
               Some c \<Rightarrow> secs @ [c\<lparr>endLine := int index - 1\<rparr>]
             | None \<Rightarrow> secs)
            (Some \<lparr>title = trim h, content = [], startLine = int index, endLine = int index\<rparr>)
      | None \<Rightarrow>
          sectionsLoop ls (Suc index) secs
            (case cur of
               Some c \<Rightarrow> Some (c\<lparr>content := content c @ line @ [newline]\<rparr>)
             | None \<Rightarrow> None))"

definition parseSections :: "string list \<Rightarrow> ParsedSection list" where
  "parseSections ls =
     (case sectionsLoop ls 0 [] None of
        (secs, Some c) \<Rightarrow> secs @ [c\<lparr>endLine := int (length ls) - 1\<rparr>]
      | (secs, None) \<Rightarrow> secs)"

definition pathLike :: "string \<Rightarrow> bool" where
  "pathLike candidate \<longleftrightarrow>
     startsWith candidate ''./'' \<or> startsWith candidate ''../'' \<or>
     startsWith candidate ''/'' \<or> includesStr candidate ''/''"

definition trailingPunctuation :: rx where
  \<comment> \<open>\<open>/[,;:.]$/\<close>\<close>
  "trailingPunctuation = Seq (Cls (\<lambda>c. c \<in> set '',;:.'')) Eol"

definition addPath :: "string \<Rightarrow> nat \<times> caps \<Rightarrow> string list \<Rightarrow> string list" where
  \<comment> \<open>the body of the loop of \<open>extractPaths\<close>, for one match\<close>
  "addPath doc m paths =
     (case capture 1 (snd m) of
        None \<Rightarrow> paths
      | Some candidate \<Rightarrow>
          if candidate \<noteq> [] \<and> pathLike candidate
          then (if isInNegatingContext doc (fst m) then paths
                else setAdd paths (replaceFirst trailingPunctuation candidate []))
          else paths)"

definition matchesOf :: "rx \<Rightarrow> string \<Rightarrow> (nat \<times> caps) list option" where
  \<comment> \<open>all matches of a fresh copy of a global pattern (\<open>lastIndex\<close> 0), in order\<close>
  "matchesOf r doc = execAll r None doc 0"

definition extractPaths :: "string \<Rightarrow> string list option" where
  "extractPaths doc =
     foldOpt (\<lambda>r paths. map_option (\<lambda>ms. fold (addPath doc) ms paths) (matchesOf r doc))
       PATH_PATTERNS []"

definition addScript :: "nat \<times> caps \<Rightarrow> string list \<Rightarrow> string list" where
  "addScript m scripts =
     (case capture 1 (snd m) of
        None \<Rightarrow> scripts
      | Some name \<Rightarrow>
          if name \<noteq> [] \<and> name \<noteq> ''install'' \<and> name \<noteq> ''init''
          then setAdd scripts name else scripts)"

definition extractScripts :: "string \<Rightarrow> string list option" where
  "extractScripts doc =
     foldOpt (\<lambda>r scripts. map_option (\<lambda>ms. fold addScript ms scripts) (matchesOf r doc))
       SCRIPT_PATTERNS []"

definition addDependency :: "nat \<times> caps \<Rightarrow> string list \<Rightarrow> string list" where
  \<comment> \<open>\<open>if (match[1]) deps.add(match[1].toLowerCase().split('@')[0])\<close>\<close>
  "addDependency m deps =
     (case capture 1 (snd m) of
        None \<Rightarrow> deps
      | Some name \<Rightarrow>
          if name \<noteq> []
          then (case splitOn CHR ''@'' (toLowerCase name) of
                  [] \<Rightarrow> deps
                | first # _ \<Rightarrow> setAdd deps first)
          else deps)"

definition extractDependencies :: "string \<Rightarrow> string list option" where
  "extractDependencies doc =
     foldOpt (\<lambda>r deps. map_option (\<lambda>ms. fold addDependency ms deps) (matchesOf r doc))
       DEPENDENCY_PATTERNS []"

text \<open>
  \<open>FRAMEWORK_PATTERNS\<close> is a module-level table of pattern objects with the \<open>g\<close> flag,
  and \<open>extractFrameworks\<close> calls \<open>test\<close> on these objects themselves. Their
  \<open>lastIndex\<close> fields are the only state that outlives a call of the parser: the model
  numbers the eleven objects and passes their \<open>lastIndex\<close> values in and out.
\<close>

type_synonym regexState = "nat \<Rightarrow> nat"

definition FRAMEWORK_PATTERNS :: "(string \<times> (nat \<times> rx) list) list" where
  "FRAMEWORK_PATTERNS =
    [(''angular'', [(0, lit ''NgModule''), (1, lit ''forRoot()''), (2, lit ''ngcc''),
                    (3, lit ''ViewChild'')]),
     (''react'', [(4, lit ''React.Component''), (5, lit ''componentDidMount''),
                  (6, lit ''componentWillMount'')]),
     (''vue'', [(7, lit ''Vue.use''), (8, lit ''new Vue('')]),
     (''node'', [(9, lit ''require(''), (10, lit ''module.exports'')])]"

definition initialRegexState :: regexState where
  \<comment> \<open>the state when the module is loaded\<close>
  "initialRegexState = (\<lambda>k. 0)"

fun anyTest :: "(nat \<times> rx) list \<Rightarrow> string \<Rightarrow> regexState \<Rightarrow> bool \<times> regexState" where
  \<comment> \<open>the inner loop: stop at the first pattern whose \<open>test\<close> succeeds\<close>
  "anyTest [] doc \<sigma> = (False, \<sigma>)"
| "anyTest ((k, r) # ps) doc \<sigma> =
     (case testG r doc (\<sigma> k) of
        (True, li) \<Rightarrow> (True, \<sigma>(k := li))
      | (False, li) \<Rightarrow> anyTest ps doc (\<sigma>(k := li)))"

fun frameworksLoop ::
  "(string \<times> (nat \<times> rx) list) list \<Rightarrow> string \<Rightarrow> regexState \<Rightarrow> string list
     \<Rightarrow> string list \<times> regexState" where
  "frameworksLoop [] doc \<sigma> frameworks = (frameworks, \<sigma>)"
| "frameworksLoop ((framework, patterns) # es) doc \<sigma> frameworks =
     (case anyTest patterns doc \<sigma> of
        (True, \<sigma>') \<Rightarrow> frameworksLoop es doc \<sigma>' (frameworks @ [framework])
      | (False, \<sigma>') \<Rightarrow> frameworksLoop es doc \<sigma>' frameworks)"

definition extractFrameworks :: "string \<Rightarrow> regexState \<Rightarrow> string list \<times> regexState" where
  "extractFrameworks doc \<sigma> = frameworksLoop FRAMEWORK_PATTERNS doc \<sigma> []"

definition parseAgentsMd :: "string \<Rightarrow> regexState \<Rightarrow> (ParsedAgentsMd \<times> regexState) option" where
  \<comment> \<open>the argument is the text of the file, as \<open>fs.readFileSync\<close> returns it\<close>
  "parseAgentsMd raw \<sigma> =
     (case extractPaths raw of None \<Rightarrow> None | Some paths \<Rightarrow>
      case extractScripts raw of None \<Rightarrow> None | Some scripts \<Rightarrow>
      case extractDependencies raw of None \<Rightarrow> None | Some deps \<Rightarrow>
      case extractFrameworks raw \<sigma> of (frameworks, \<sigma>') \<Rightarrow>
        Some (\<lparr>rawContent = raw,
               sections = parseSections (splitOn newline raw),
               mentionedPaths = paths,
               mentionedScripts = scripts,
               mentionedDependencies = deps,
               mentionedFrameworks = frameworks,
               lines = splitOn newline raw\<rparr>, \<sigma>'))"

section \<open>Issues, results and configuration (types.ts)\<close>

datatype Severity = Error | Warn | Info

record LintIssue =
  rule :: string
  severity :: Severity
  message :: string
  line :: "nat option"
  context' :: "string option"
  suggestion :: "string option"

text \<open>
  \<open>passed\<close> and \<open>failed\<close> are counters: the checkers start them at 0 and add 1. They
  are natural numbers in the model, taken below \<open>2^53\<close>, where the additions of
  JavaScript numbers are exact.
\<close>

record CheckResult =
  checker :: string
  issues :: "LintIssue list"
  passed :: nat
  failed :: nat

record SeverityConfig =
  missingPath :: "Severity option"
  missingScript :: "Severity option"
  staleDependency :: "Severity option"
  staleFramework :: "Severity option"
  missingSection :: "Severity option"

record LintConfig =
  severityOverrides :: "SeverityConfig option"  \<comment> \<open>the field \<open>severity\<close>\<close>
  ignorePatterns :: "string list option"
  requiredSections :: "string list option"
  maxFileAgeDays :: "nat option"

definition defaultConfig :: LintConfig where
  \<comment> \<open>\<open>{}\<close>: what \<open>loadConfig\<close> returns when there is no configuration file\<close>
  "defaultConfig = \<lparr>severityOverrides = None, ignorePatterns = None,
                     requiredSections = None, maxFileAgeDays = None\<rparr>"

text \<open>
  The root \<open>package.json\<close>, as the checkers read it: the entries (name and version) of
  its three dependency tables, an absent table being empty. A checker receives \<open>None\<close>
  when the file does not exist or is not JSON.
\<close>

record PackageJson =
  dependencies :: "(string \<times> string) list"
  devDependencies :: "(string \<times> string) list"
  peerDependencies :: "(string \<times> string) list"

section \<open>The dependency checker (checkers/dependencies.ts)\<close>

definition DEPRECATED_PACKAGES :: "(string \<times> string) list" where
  "DEPRECATED_PACKAGES =
    [(''request'', ''axios or node-fetch''),
     (''moment'', ''date-fns or dayjs''),
     (''lodash'', ''native JS methods or a smaller util''),
     (''tslint'', ''eslint with @typescript-eslint''),
     (''node-sass'', ''sass (Dart Sass)''),
     (''babel-eslint'', ''@babel/eslint-parser''),
     (''eslint-plugin-prettier'', ''prettier via editor integration''),
     (''react-scripts'', ''vite or create-vite''),
     (''webpack'', ''vite (unless legacy)'')]"

definition allDepsOf :: "PackageJson \<Rightarrow> string list" where
  "allDepsOf pkg =
     map fst (dependencies pkg) @ map fst (devDependencies pkg) @ map fst (peerDependencies pkg)"

definition typesPrefix :: rx where
  \<comment> \<open>\<open>/^@types\//\<close>\<close>
  "typesPrefix = Seq Bol (lit ''@types/'')"

definition commonFrameworks :: "string list" where
  "commonFrameworks = [''react'', ''angular'', ''vue'', ''node'', ''typescript'', ''javascript'']"

definition quote :: string where
  "quote = [CHR 0x22]"

definition missingDependencyIssue :: "ParsedAgentsMd \<Rightarrow> string \<Rightarrow> LintIssue" where
  "missingDependencyIssue parsed dep =
     \<lparr>rule = ''no-missing-dependency'',
      severity = Warn,
      message = ''Package '' @ quote @ dep @ quote @ '' is mentioned but not found in package.json'',
      line = map_option Suc
               (findIndex (\<lambda>l. includesStr (toLowerCase l) (toLowerCase dep)) (lines parsed)),
      context' = None,
      suggestion = Some (''Either add '' @ quote @ dep @ quote @
                         '' to package.json or remove the reference from this context file'')\<rparr>"

definition deprecatedIssue :: "ParsedAgentsMd \<Rightarrow> Severity \<Rightarrow> string \<Rightarrow> string \<Rightarrow> LintIssue" where
  "deprecatedIssue parsed sev deprecated replacement =
     \<lparr>rule = ''deprecated-dependency'',
      severity = sev,
      message = ''Package '' @ quote @ deprecated @ quote @ '' is deprecated'',
      line = map_option Suc (findIndex (\<lambda>l. includesStr l deprecated) (lines parsed)),
      context' = None,
      suggestion = Some (''Consider migrating to: '' @ replacement)\<rparr>"

definition checkMentioned ::
  "ParsedAgentsMd \<Rightarrow> string list \<Rightarrow> string list \<Rightarrow> string
     \<Rightarrow> LintIssue list \<times> nat \<times> nat \<Rightarrow> LintIssue list \<times> nat \<times> nat" where
  \<comment> \<open>the body of the first loop, for one mentioned dependency\<close>
  "checkMentioned parsed ignored allDeps dep acc =
     (case acc of (iss, npassed, nfailed) \<Rightarrow>
        if \<exists>p \<in> set ignored. includesStr dep p then acc
        else
          let normalized = replaceFirst typesPrefix (toLowerCase dep) [];
              exists =
                (dep \<in> set allDeps \<or> (''@types/'' @ dep) \<in> set allDeps \<or>
                 (\<exists>d \<in> set allDeps. includesStr (toLowerCase d) normalized))
          in if exists then (iss, Suc npassed, nfailed)
             else if toLowerCase dep \<notin> set commonFrameworks
                  then (iss @ [missingDependencyIssue parsed dep], npassed, Suc nfailed)
                  else acc)"

definition checkDeprecated ::
  "ParsedAgentsMd \<Rightarrow> Severity \<Rightarrow> string list \<Rightarrow> string \<times> string
     \<Rightarrow> LintIssue list \<Rightarrow> LintIssue list" where
  \<comment> \<open>the body of the second loop, for one entry of the table\<close>
  "checkDeprecated parsed sev allDeps entry iss =
     (if fst entry \<in> set allDeps
      then iss @ [deprecatedIssue parsed sev (fst entry) (snd entry)]
      else iss)"

definition staleDependencySeverity :: "LintConfig \<Rightarrow> Severity" where
  \<comment> \<open>\<open>config.severity?.staleDependency ?? 'info'\<close>\<close>
  "staleDependencySeverity config =
     (case severityOverrides config of
        None \<Rightarrow> Info
      | Some sc \<Rightarrow> (case staleDependency sc of None \<Rightarrow> Info | Some s \<Rightarrow> s))"

definition checkDependencies ::
  "ParsedAgentsMd \<Rightarrow> PackageJson option \<Rightarrow> LintConfig \<Rightarrow> CheckResult" where
  "checkDependencies parsed manifest config =
     (case manifest of
        None \<Rightarrow> \<lparr>checker = ''dependencies'', issues = [], passed = 0, failed = 0\<rparr>
      | Some pkg \<Rightarrow>
          let ignored = (case ignorePatterns config of None \<Rightarrow> [] | Some ps \<Rightarrow> ps);
              allDeps = allDepsOf pkg
          in (case fold (checkMentioned parsed ignored allDeps) (mentionedDependencies parsed)
                     ([], 0, 0) of
                (iss, npassed, nfailed) \<Rightarrow>
                  \<lparr>checker = ''dependencies'',
                   issues = fold (checkDeprecated parsed (staleDependencySeverity config) allDeps)
                              DEPRECATED_PACKAGES iss,
                   passed = npassed,
                   failed = nfailed\<rparr>))"

section \<open>The structure checker (checkers/structure.ts)\<close>

text \<open>
  The messages of the source contain the dash U+2014, which is outside the character
  range of the model; it is written \<open>--\<close> here. No property below depends on it.
\<close>

datatype RecommendedSection =
  RecommendedSection (sectionKeywords: "string list") (sectionRule: string) (sectionMessage: string)
    (sectionSuggestion: string) (sectionSeverity: Severity)

definition RECOMMENDED_SECTIONS :: "RecommendedSection list" where
  "RECOMMENDED_SECTIONS =
    [RecommendedSection
       [''setup'', ''install'', ''getting started'', ''quick start'', ''prerequisites'']
       ''missing-setup-section''
       ''No setup/installation section found''
       (''Add a '' @ quote @ ''Setup'' @ quote @ '' or '' @ quote @ ''Getting Started'' @ quote @
        '' section explaining how to install dependencies and configure the environment.'')
       Warn,
     RecommendedSection
       [''test'', ''testing'', ''run tests'', ''unit test'', ''e2e'']
       ''missing-test-section''
       ''No testing section found -- agents need to know how to run tests to verify their changes''
       (''Add a '' @ quote @ ''Testing'' @ quote @
        '' section with the exact commands to run tests (e.g., `npm test` or `npm run test:unit`).'')
       Warn,
     RecommendedSection
       [''build'', ''compile'', ''bundle'']
       ''missing-build-section''
       ''No build section found''
       (''Add a '' @ quote @ ''Build'' @ quote @
        '' section with the command to build the project (e.g., `npm run build`).'')
       Info]"

datatype QualityCheck =
  QualityCheck (check: "ParsedAgentsMd \<Rightarrow> bool") (qualityRule: string)
    (qualitySeverity: Severity) (qualityMessage: string) (qualitySuggestion: string)

definition todoMarker :: rx where
  \<comment> \<open>\<open>/TODO|FIXME|XXX|HACK/gi\<close>\<close>
  "todoMarker = alts [liti ''TODO'', liti ''FIXME'', liti ''XXX'', liti ''HACK'']"

definition oldYearPattern :: rx where
  \<comment> \<open>\<open>/\b(201[0-9]|202[0-3])\b/\<close>\<close>
  "oldYearPattern =
     seqs [Wb,
           Grp 1 (Alt (Seq (lit ''201'') (Cls isDigit))
                      (Seq (lit ''202'') (Cls (\<lambda>c. c \<in> set ''0123'')))),
           Wb]"

definition QUALITY_CHECKS :: "QualityCheck list" where
  "QUALITY_CHECKS =
    [QualityCheck (\<lambda>parsed. length (rawContent parsed) < 100)
       ''too-short'' Warn
       ''Context file is very short (< 100 characters) -- agents may lack sufficient context''
       ''Add more context about your project structure, conventions, and workflows.'',
     QualityCheck (\<lambda>parsed. 15000 < length (rawContent parsed))
       ''too-long'' Info
       ''Context file is very long (> 15,000 characters) -- context bloat increases cost by 20%+''
       ''Trim to only non-discoverable information. Remove sections that describe things agents can infer from code.'',
     QualityCheck (\<lambda>parsed. 3 < length (matchAll todoMarker (rawContent parsed)))
       ''too-many-todos'' Info
       ''Context file contains multiple TODO/FIXME markers -- stale notes can mislead agents''
       ''Resolve TODOs or remove them from AGENTS.md. Outdated notes are worse than no notes.'',
     QualityCheck (\<lambda>parsed. test oldYearPattern (rawContent parsed))
       ''old-year-reference'' Info
       ''Context file references years before 2024 -- may contain stale information''
       ''Review and update any time-sensitive references.'']"

definition missingSectionSeverity :: "LintConfig \<Rightarrow> Severity" where
  \<comment> \<open>\<open>config.severity?.missingSection ?? 'warn'\<close>\<close>
  "missingSectionSeverity config =
     (case severityOverrides config of
        None \<Rightarrow> Warn
      | Some sc \<Rightarrow> (case missingSection sc of None \<Rightarrow> Warn | Some s \<Rightarrow> s))"

definition customSection :: "Severity \<Rightarrow> string \<Rightarrow> RecommendedSection" where
  "customSection sev name =
     RecommendedSection
       [toLowerCase name]
       (''missing-custom-section-'' @
        replaceAllWith (Plus (Cls isSpace)) (\<lambda>m. ''-'') (toLowerCase name))
       (''Required section '' @ quote @ name @ quote @ '' not found'')
       (''Add a '' @ quote @ name @ quote @
        '' section as required by your .agents-lint.json config.'')
       sev"

definition checkSection ::
  "ParsedAgentsMd \<Rightarrow> Severity \<Rightarrow> RecommendedSection \<Rightarrow> LintIssue list \<times> nat
     \<Rightarrow> LintIssue list \<times> nat" where
  \<comment> \<open>the body of the loop over the sections to check; the issue takes the configured
      severity, not the section's own\<close>
  "checkSection parsed sev sec acc =
     (let sectionTitles = map (\<lambda>s. toLowerCase (title s)) (sections parsed);
          contentLower = toLowerCase (rawContent parsed);
          found = (\<exists>kw \<in> set (sectionKeywords sec).
                     (\<exists>t \<in> set sectionTitles. includesStr t kw) \<or> includesStr contentLower kw)
      in if found then (fst acc, Suc (snd acc))
         else (fst acc @ [\<lparr>rule = sectionRule sec, severity = sev,
                            message = sectionMessage sec, line = None, context' = None,
                            suggestion = Some (sectionSuggestion sec)\<rparr>], snd acc))"

definition checkQuality ::
  "ParsedAgentsMd \<Rightarrow> QualityCheck \<Rightarrow> LintIssue list \<times> nat \<Rightarrow> LintIssue list \<times> nat" where
  "checkQuality parsed qc acc =
     (if check qc parsed
      then (fst acc @ [\<lparr>rule = qualityRule qc, severity = qualitySeverity qc,
                         message = qualityMessage qc, line = None, context' = None,
                         suggestion = Some (qualitySuggestion qc)\<rparr>], snd acc)
      else (fst acc, Suc (snd acc)))"

definition checkStructure :: "ParsedAgentsMd \<Rightarrow> LintConfig \<Rightarrow> CheckResult" where
  "checkStructure parsed config =
     (let sev = missingSectionSeverity config;
          sectionsToCheck =
            RECOMMENDED_SECTIONS @
            map (customSection sev) (case requiredSections config of None \<Rightarrow> [] | Some rs \<Rightarrow> rs);
          acc = fold (checkQuality parsed) QUALITY_CHECKS
                  (fold (checkSection parsed sev) sectionsToCheck ([], 0))
      in \<lparr>checker = ''structure'', issues = fst acc, passed = snd acc,
          failed = length (fst acc)\<rparr>)"

section \<open>The framework checker (checkers/framework.ts)\<close>

datatype FrameworkCheck =
  FrameworkCheck (pattern: rx) (frameworkRule: string) (frameworkMessage: string)
    (frameworkSuggestion: string)

definition FRAMEWORK_CHECKS :: "(string \<times> FrameworkCheck list) list" where
  "FRAMEWORK_CHECKS =
    [(''angular'',
      [FrameworkCheck (Alt (lit ''NgModule'') (lit ''@NgModule''))
         ''angular-ngmodule-deprecated''
         ''References NgModules -- Angular 14+ uses standalone components by default''
         ''Update AGENTS.md to reflect standalone component architecture. NgModules are being phased out in modern Angular.'',
       FrameworkCheck (Alt (liti ''ngcc'') (seqs [liti ''ivy'', Plus (Cls isSpace), liti ''compat'']))
         ''angular-ngcc-deprecated''
         ''References ngcc (Angular Compatibility Compiler) -- removed in Angular v16+''
         ''Remove ngcc references. Only full Ivy is supported in modern Angular.'',
       FrameworkCheck (seqs [lit ''enableIvy:'', Star (Cls isSpace), lit ''false''])
         ''angular-ivy-disabled''
         ''References disabling Ivy renderer -- not supported in Angular 13+''
         ''Remove enableIvy: false. Ivy is the only renderer in modern Angular.'',
       FrameworkCheck (Alt (seqs [Wb, lit ''promiseToObservable'', Wb])
                           (seqs [Wb, lit ''toPromise()'']))
         ''angular-topromise-deprecated''
         ''References .toPromise() -- deprecated in RxJS 7, removed in RxJS 8''
         ''Replace .toPromise() with firstValueFrom() or lastValueFrom() from rxjs'']),
     (''react'',
      [FrameworkCheck (alts [lit ''componentDidMount'', lit ''componentWillMount'',
                             lit ''componentWillUnmount'', lit ''componentDidUpdate''])
         ''react-class-lifecycle''
         ''References class component lifecycle methods -- React 18+ recommends hooks''
         ''Consider updating AGENTS.md to use hooks (useEffect, useState) instead of class lifecycle methods.'',
       FrameworkCheck (lit ''ReactDOM.render('')
         ''react-legacy-render''
         ''References ReactDOM.render() -- deprecated in React 18, removed in React 19''
         ''Replace ReactDOM.render() with createRoot().render() from react-dom/client'',
       FrameworkCheck (Alt (lit ''componentWillMount'') (lit ''UNSAFE_componentWillMount''))
         ''react-unsafe-lifecycle''
         ''References unsafe lifecycle methods''
         ''Use useEffect hook instead.'']),
     (''next'',
      [FrameworkCheck (lit ''getInitialProps'')
         ''nextjs-getinitialprops-legacy''
         ''References getInitialProps -- legacy API, prefer getStaticProps/getServerSideProps or App Router''
         ''Migrate to getStaticProps, getServerSideProps, or the Next.js App Router.'',
       FrameworkCheck (Alt (lit ''pages/_app'') (lit ''pages/_document''))
         ''nextjs-pages-router''
         ''References Pages Router patterns -- Next.js 13+ recommends App Router''
         ''Consider if this project has migrated or plans to migrate to App Router.'']),
     (''node'',
      [FrameworkCheck (Alt (Seq (lit ''require('') (Cls (\<lambda>c. c = CHR 0x27 \<or> c = CHR 0x22)))
                           (lit ''module.exports''))
         ''node-commonjs-in-esm-project''
         ''References CommonJS (require/module.exports) syntax''
         ''If this is an ESM project, update AGENTS.md to use import/export syntax.''])]"

definition generalChecks :: "FrameworkCheck list" where
  "generalChecks =
    [FrameworkCheck
       (seqs [liti ''node'', Plus (Cls isSpace), Opt (liti ''v''),
              Grp 1 (Alt (Seq (Chr CHR ''1'') (Cls (\<lambda>c. c \<in> set ''012345''))) (Cls isDigit)),
              Chr CHR ''.''])
       ''old-node-version''
       ''References an outdated Node.js version (< 16)''
       ''Update to Node.js 20 LTS or later. Node 18+ is required for many modern tools.'',
     FrameworkCheck
       (seqs [liti ''npm'', Plus (Cls isSpace), Opt (liti ''v''),
              Grp 1 (Alt (Chr CHR ''5'') (Chr CHR ''6'')), Chr CHR ''.''])
       ''old-npm-version''
       ''References an outdated npm version (< 7)''
       ''Update npm to v9+ or consider migrating to pnpm or bun.'']"

definition truthyDep :: "PackageJson \<Rightarrow> string \<Rightarrow> bool" where
  \<comment> \<open>\<open>allDeps[name]\<close> is truthy, for
      \<open>allDeps = {...pkg.dependencies, ...pkg.devDependencies}\<close>\<close>
  "truthyDep pkg name \<longleftrightarrow>
     (case map_of (devDependencies pkg) name of
        Some v \<Rightarrow> v \<noteq> []
      | None \<Rightarrow> (case map_of (dependencies pkg) name of Some v \<Rightarrow> v \<noteq> [] | None \<Rightarrow> False))"

definition detectFrameworks :: "PackageJson option \<Rightarrow> string list" where
  "detectFrameworks manifest =
     (case manifest of
        None \<Rightarrow> []
      | Some pkg \<Rightarrow>
          let detected =
                (if truthyDep pkg ''@angular/core'' then [''angular''] else []) @
                (if truthyDep pkg ''react'' then [''react''] else []) @
                (if truthyDep pkg ''next'' then [''next''] else []) @
                (if truthyDep pkg ''vue'' then [''vue''] else []) @
                (if truthyDep pkg ''nuxt'' then [''nuxt''] else []) @
                (if truthyDep pkg ''svelte'' then [''svelte''] else [])
          in if detected = [] then [''node''] else detected)"

definition frameworkIssue :: "ParsedAgentsMd \<Rightarrow> bool \<Rightarrow> FrameworkCheck \<Rightarrow> LintIssue" where
  \<comment> \<open>the flag says whether the issue carries the line as its context\<close>
  "frameworkIssue parsed withContext fc =
     (let lineNumber = findIndex (test (pattern fc)) (lines parsed) in
      \<lparr>rule = frameworkRule fc,
       severity = Warn,
       message = frameworkMessage fc,
       line = map_option Suc lineNumber,
       context' = (if withContext
                   then map_option (\<lambda>n. trim (lines parsed ! n)) lineNumber else None),
       suggestion = Some (frameworkSuggestion fc)\<rparr>)"

definition checkFramework ::
  "ParsedAgentsMd \<Rightarrow> FrameworkCheck \<Rightarrow> LintIssue list \<times> nat \<Rightarrow> LintIssue list \<times> nat" where
  "checkFramework parsed fc acc =
     (if test (pattern fc) (rawContent parsed)
      then (fst acc @ [frameworkIssue parsed True fc], snd acc)
      else (fst acc, Suc (snd acc)))"

definition checkGeneral ::
  "ParsedAgentsMd \<Rightarrow> FrameworkCheck \<Rightarrow> LintIssue list \<times> nat \<Rightarrow> LintIssue list \<times> nat" where
  "checkGeneral parsed fc acc =
     (if test (pattern fc) (rawContent parsed)
      then (fst acc @ [frameworkIssue parsed False fc], snd acc)
      else acc)"

definition checkFrameworkStaleness :: "ParsedAgentsMd \<Rightarrow> PackageJson option \<Rightarrow> CheckResult" where
  "checkFrameworkStaleness parsed manifest =
     (let checksOf = (\<lambda>framework.
            case map_of FRAMEWORK_CHECKS framework of None \<Rightarrow> [] | Some cs \<Rightarrow> cs);
          acc = fold (checkGeneral parsed) generalChecks
                  (fold (\<lambda>framework. fold (checkFramework parsed) (checksOf framework))
                     (detectFrameworks manifest) ([], 0))
      in \<lparr>checker = ''framework-staleness'', issues = fst acc, passed = snd acc,
          failed = length (fst acc)\<rparr>)"

section \<open>JavaScript numbers\<close>

text \<open>
  A JavaScript number is an IEEE 754 double. The counters and penalties of the program
  are integers below \<open>2^53\<close>, which doubles represent exactly and add exactly; the
  quotients and products are rounded. \<open>fl x\<close> is the double nearest to the rational
  \<open>x\<close>, ties going to the even significand (the rounding of every arithmetic operation
  of the language): a significand of 53 bits, and a least exponent of \<open>-1074\<close> for the
  last bit. Overflow to infinity is not modelled (no value of the program comes near).
\<close>

definition ilog2 :: "rat \<Rightarrow> int" where
  \<comment> \<open>for \<open>0 < x\<close>: the \<open>e\<close> with \<open>2^e \<le> x < 2^(e+1)\<close>\<close>
  "ilog2 x =
     (case quotient_of x of
        (a, b) \<Rightarrow>
          let d = int (floorlog 2 (nat a)) - int (floorlog 2 (nat b))
          in if 2 powi d \<le> x then d else d - 1)"

definition rne :: "rat \<Rightarrow> int" where
  \<comment> \<open>the nearest integer, ties to even\<close>
  "rne x =
     (let f = \<lfloor>x\<rfloor>; d = x - of_int f
      in if d < 1 / 2 then f else if 1 / 2 < d then f + 1 else if even f then f else f + 1)"

definition ulpExp :: "rat \<Rightarrow> int" where
  \<comment> \<open>the exponent of the last bit of the double nearest to \<open>x\<close>\<close>
  "ulpExp x = max (ilog2 \<bar>x\<bar> - 52) (- 1074)"

definition fl :: "rat \<Rightarrow> rat" where
  "fl x = (if x = 0 then 0
           else sgn x * of_int (rne (\<bar>x\<bar> / 2 powi ulpExp x)) * 2 powi ulpExp x)"

definition jsRound :: "rat \<Rightarrow> int" where
  \<comment> \<open>\<open>Math.round\<close>: the nearest integer, ties going up\<close>
  "jsRound x = \<lfloor>x + 1 / 2\<rfloor>"

section \<open>The score (reporter.ts)\<close>

definition addPenalty :: "LintIssue \<Rightarrow> nat \<Rightarrow> nat" where
  "addPenalty issue weightedPenalty =
     (case severity issue of
        Error \<Rightarrow> weightedPenalty + 15
      | Warn \<Rightarrow> weightedPenalty + 7
      | Info \<Rightarrow> weightedPenalty + 2)"

definition scoreStep :: "CheckResult \<Rightarrow> nat \<times> nat \<times> nat \<Rightarrow> nat \<times> nat \<times> nat" where
  \<comment> \<open>the body of the loop over the results\<close>
  "scoreStep result acc =
     (case acc of (totalChecks, totalPassed, weightedPenalty) \<Rightarrow>
        (totalChecks + (passed result + failed result),
         totalPassed + passed result,
         fold addPenalty (issues result) weightedPenalty))"

definition computeScore :: "CheckResult list \<Rightarrow> int" where
  "computeScore results =
     (case fold scoreStep results (0, 0, 0) of
        (totalChecks, totalPassed, weightedPenalty) \<Rightarrow>
          if totalChecks = 0 then 100
          else
            let baseScore =
                  (if 0 < totalChecks
                   then fl (fl (of_nat totalPassed / of_nat totalChecks) * 100) else 100);
                finalScore =
                  max 0 (min 100 (jsRound (fl (baseScore - of_nat weightedPenalty))))
            in finalScore)"

definition scoreGrade :: "int \<Rightarrow> string" where
  "scoreGrade score =
     (if 90 \<le> score then ''A''
      else if 80 \<le> score then ''B''
      else if 70 \<le> score then ''C''
      else if 50 \<le> score then ''D''
      else ''F'')"

section \<open>Reports (linter.ts)\<close>

record LintReport =
  file' :: string
  score :: int
  results :: "CheckResult list"
  totalIssues :: nat
  errors :: nat
  warnings :: nat
  infos :: nat
  timestamp :: string

record MultiLintReport =
  files :: "string list"
  reports :: "LintReport list"
  crossCheck :: CheckResult
  overallScore :: int
  totalErrors :: nat
  totalWarnings :: nat
  totalInfos :: nat

definition countSeverity :: "Severity \<Rightarrow> LintIssue list \<Rightarrow> nat" where
  \<comment> \<open>\<open>issues.filter((i) => i.severity === s).length\<close>\<close>
  "countSeverity s iss = length (filter (\<lambda>i. severity i = s) iss)"

definition lintReport :: "string \<Rightarrow> string \<Rightarrow> CheckResult list \<Rightarrow> LintReport" where
  \<comment> \<open>the report that \<open>lint\<close> builds from the results of the five checkers\<close>
  "lintReport relativePath now rs =
     (let allIssues = concat (map issues rs) in
      \<lparr>file' = relativePath,
       score = computeScore rs,
       results = rs,
       totalIssues = length allIssues,
       errors = countSeverity Error allIssues,
       warnings = countSeverity Warn allIssues,
       infos = countSeverity Info allIssues,
       timestamp = now\<rparr>)"

definition lintEach :: "(string \<times> string \<times> CheckResult list) list \<Rightarrow> LintReport list" where
  \<comment> \<open>\<open>foundPaths.map((fp) => lint(...))\<close>: one report per file found, each from the file's
      relative path, the time of the run and the results of its checkers\<close>
  "lintEach docs = map (\<lambda>(relativePath, now, rs). lintReport relativePath now rs) docs"

definition lintAllReport :: "LintReport list \<Rightarrow> CheckResult \<Rightarrow> string + MultiLintReport" where
  \<comment> \<open>\<open>lintAll\<close>, from the reports of the files found (one per file) and the result of the
      cross-check; with no file found it throws\<close>
  "lintAllReport rps cross =
     (if rps = [] then Inl ''No context file found''
      else
        let crossIssues = issues cross in
        Inr \<lparr>files = map file' rps,
             reports = rps,
             crossCheck = cross,
             overallScore =
               jsRound (fl (of_int (fold (\<lambda>r sum. sum + score r) rps 0) / of_nat (length rps))),
             totalErrors = fold (\<lambda>r s. s + errors r) rps 0 + countSeverity Error crossIssues,
             totalWarnings = fold (\<lambda>r s. s + warnings r) rps 0 + countSeverity Warn crossIssues,
             totalInfos = fold (\<lambda>r s. s + infos r) rps 0 + countSeverity Info crossIssues\<rparr>)"

section \<open>Fix mode (fix.ts)\<close>

text \<open>
  \<open>SECTION_TEMPLATES\<close> is an object literal, so \<open>SECTION_TEMPLATES[rule]\<close> is the
  string of an own key, or, for a rule that names a member of \<open>Object.prototype\<close>, that
  inherited member: a function, or for \<open>__proto__\<close> the prototype object. Such a value
  is truthy and is not a string.
\<close>

datatype TemplateValue = Text string | Inherited

datatype FixAction = RemoveLine nat | AddSection TemplateValue

datatype error = TypeError

definition SECTION_TEMPLATES :: "(string \<times> string) list" where
  "SECTION_TEMPLATES =
    [(''missing-setup-section'',
      ''\<newline>## Setup\<newline>\<newline>```bash\<newline># TODO: add setup/install commands\<newline>```\<newline>''),
     (''missing-test-section'',
      ''\<newline>## Testing\<newline>\<newline>```bash\<newline># TODO: add test command (e.g., npm test)\<newline>```\<newline>''),
     (''missing-build-section'',
      ''\<newline>## Build\<newline>\<newline>```bash\<newline># TODO: add build command (e.g., npm run build)\<newline>```\<newline>'')]"

definition objectPrototypeKeys :: "string list" where
  \<comment> \<open>the property names of \<open>Object.prototype\<close>\<close>
  "objectPrototypeKeys =
    [''constructor'', ''__defineGetter__'', ''__defineSetter__'', ''hasOwnProperty'',
     ''__lookupGetter__'', ''__lookupSetter__'', ''isPrototypeOf'', ''propertyIsEnumerable'',
     ''toString'', ''valueOf'', ''__proto__'', ''toLocaleString'']"

definition templateOf :: "string \<Rightarrow> TemplateValue option" where
  \<comment> \<open>\<open>SECTION_TEMPLATES[rule]\<close>; \<open>None\<close> is \<open>undefined\<close>\<close>
  "templateOf r =
     (case map_of SECTION_TEMPLATES r of
        Some t \<Rightarrow> Some (Text t)
      | None \<Rightarrow> if r \<in> set objectPrototypeKeys then Some Inherited else None)"

fun truthy :: "TemplateValue \<Rightarrow> bool" where
  "truthy (Text t) = (t \<noteq> [])"
| "truthy Inherited = True"

definition upperChar :: "char \<Rightarrow> char" where
  \<comment> \<open>\<open>toUpperCase\<close> of one character; the source applies it to word characters only\<close>
  "upperChar c = (case map_of (zip lowerChars upperChars) c of Some u \<Rightarrow> u | None \<Rightarrow> c)"

definition customRule :: rx where
  \<comment> \<open>\<open>/^missing-custom-section-(.+)$/\<close>\<close>
  "customRule =
     seqs [Bol, lit ''missing-custom-section-'',
           Grp 1 (Plus (Cls (\<lambda>c. \<not> isLineTerminator c))), Eol]"

definition customTemplate :: "string \<Rightarrow> string option" where
  \<comment> \<open>the template of a custom section, when the rule is \<open>missing-custom-section-<name>\<close>\<close>
  "customTemplate r =
     (case searchFrom customRule None r 0 of
        None \<Rightarrow> None
      | Some (idx, sfx, st) \<Rightarrow>
          (case capture 1 (snd (snd st)) of
             None \<Rightarrow> None
           | Some m \<Rightarrow>
               let name = replaceAllWith (Seq Wb (Cls isWordChar)) (map upperChar)
                            (replaceAllWith (Chr CHR ''-'') (\<lambda>m. '' '') m)
               in Some (''\<newline>## '' @ name @ ''\<newline>\<newline><!-- TODO: add '' @ name @
                        '' content -->\<newline>'')))"

definition getSectionTemplate :: "string \<Rightarrow> TemplateValue option" where
  "getSectionTemplate r =
     (case templateOf r of
        Some v \<Rightarrow> if truthy v then Some v else map_option Text (customTemplate r)
      | None \<Rightarrow> map_option Text (customTemplate r))"

definition templateFix :: "string \<Rightarrow> FixAction option" where
  \<comment> \<open>the second half of \<open>buildFixAction\<close>: a section to add, if the rule has a template\<close>
  "templateFix r =
     (case getSectionTemplate r of
        Some v \<Rightarrow> if truthy v then Some (AddSection v) else None
      | None \<Rightarrow> None)"

definition buildFixAction :: "LintIssue \<Rightarrow> string list \<Rightarrow> FixAction option" where
  "buildFixAction issue fileLines =
     (case line issue of
        Some n \<Rightarrow>
          if 1 \<le> n \<and> n \<le> length fileLines then Some (RemoveLine n)
          else templateFix (rule issue)
      | None \<Rightarrow> templateFix (rule issue))"

text \<open>
  The state of the interactive loop: the decisions collected so far, the answers not yet
  read and the flag \<open>quit\<close>. The answers are the lines of the standard input, each
  trimmed and put in lower case, in the order in which the prompts consume them; a
  prompt that finds no answer left reads the empty string.
\<close>

record FixState =
  linesToRemove :: "nat list"
  sectionsToAdd :: "string list"
  pending :: "string list"
  quit :: bool

definition ask :: "string list \<Rightarrow> string \<times> string list" where
  \<comment> \<open>\<open>answers[idx++] ?? ''\<close>\<close>
  "ask answers = (case answers of [] \<Rightarrow> ([], []) | a # others \<Rightarrow> (a, others))"

definition prompt :: "(FixState \<Rightarrow> FixState) \<Rightarrow> FixState \<Rightarrow> FixState" where
  \<comment> \<open>one prompt and the decision taken on its answer; \<open>upd\<close> records the fix\<close>
  "prompt upd st =
     (case ask (pending st) of
        (answer, others) \<Rightarrow>
          let st1 = st\<lparr>pending := others\<rparr> in
          if answer = ''q'' \<or> answer = ''quit'' then st1\<lparr>quit := True\<rparr>
          else if answer = ''y'' \<or> answer = ''yes'' then upd st1
          else st1)"

fun decide :: "FixAction \<Rightarrow> FixState \<Rightarrow> error + FixState" where
  \<comment> \<open>the body of the loop for a fixable issue: the fix is displayed, then prompted for.
      Displaying a section calls \<open>fix.content.split\<close>, which is not a function when the
      content is not a string\<close>
  "decide (RemoveLine n) st =
     Inr (prompt (\<lambda>s. s\<lparr>linesToRemove := setAdd (linesToRemove s) n\<rparr>) st)"
| "decide (AddSection (Text t)) st =
     Inr (prompt (\<lambda>s. s\<lparr>sectionsToAdd := sectionsToAdd s @ [t]\<rparr>) st)"
| "decide (AddSection Inherited) st = Inl TypeError"

fun issuesLoop :: "string list \<Rightarrow> LintIssue list \<Rightarrow> FixState \<Rightarrow> error + FixState" where
  "issuesLoop fileLines [] st = Inr st"
| "issuesLoop fileLines (issue # others) st =
     (if quit st then Inr st
      else (case buildFixAction issue fileLines of
              None \<Rightarrow> issuesLoop fileLines others st
            | Some fix \<Rightarrow>
                (case decide fix st of
                   Inl e \<Rightarrow> Inl e
                 | Inr st' \<Rightarrow> issuesLoop fileLines others st')))"

fun resultsLoop :: "string list \<Rightarrow> CheckResult list \<Rightarrow> FixState \<Rightarrow> error + FixState" where
  "resultsLoop fileLines [] st = Inr st"
| "resultsLoop fileLines (result # others) st =
     (if quit st then Inr st
      else (case issuesLoop fileLines (issues result) st of
              Inl e \<Rightarrow> Inl e
            | Inr st' \<Rightarrow> resultsLoop fileLines others st'))"

definition splice1 :: "int \<Rightarrow> 'a list \<Rightarrow> 'a list" where
  \<comment> \<open>the array after \<open>xs.splice(i, 1)\<close>: a negative index counts from the end, and an
      index past the end removes nothing\<close>
  "splice1 i xs =
     (let n = int (length xs);
          start = (if i < 0 then max (n + i) 0 else min i n)
      in take (nat start) xs @ drop (Suc (nat start)) xs)"

definition applyFixes :: "string list \<Rightarrow> nat list \<Rightarrow> string list \<Rightarrow> string" where
  \<comment> \<open>the content written: removals in descending order, then the sections appended\<close>
  "applyFixes fileLines toRemove toAdd =
     (let sortedLines = rev (sort toRemove);
          newLines = fold (\<lambda>lineNum ls. splice1 (int lineNum - 1) ls) sortedLines fileLines;
          newLines' = (if toAdd \<noteq> []
                       then newLines @ splitOn newline (joinWith [newline] toAdd)
                       else newLines)
      in joinWith [newline] newLines')"

definition fixSession :: "LintReport \<Rightarrow> string \<Rightarrow> string list \<Rightarrow> error + FixState" where
  \<comment> \<open>the state after the interactive loop, or the exception that ends it\<close>
  "fixSession report fileContent stdinLines =
     resultsLoop (splitOn newline fileContent) (results report)
       \<lparr>linesToRemove = [], sectionsToAdd = [],
        pending = map (\<lambda>l. toLowerCase (trim l)) stdinLines, quit = False\<rparr>"

definition runFixMode :: "LintReport \<Rightarrow> string \<Rightarrow> string list \<Rightarrow> error + string list" where
  \<comment> \<open>the contents that the call writes to the file, one per \<open>writeFileSync\<close>, in order;
      or the exception with which it ends, having written nothing\<close>
  "runFixMode report fileContent stdinLines =
     (if concat (map issues (results report)) = [] then Inr []
      else
        (case fixSession report fileContent stdinLines of
           Inl e \<Rightarrow> Inl e
         | Inr st \<Rightarrow>
             let totalAccepted = length (linesToRemove st) + length (sectionsToAdd st)
             in if totalAccepted = 0 then Inr []
                else Inr [applyFixes (splitOn newline fileContent) (linesToRemove st)
                           (sectionsToAdd st)]))"

section \<open>Notions used to state the properties\<close>

text \<open>
  \<open>tiles a secs b\<close>: the line ranges of \<open>secs\<close>, in order, cover the lines \<open>a\<close> to
  \<open>b - 1\<close> with no gap and no overlap: the first range starts at \<open>a\<close>, each range is
  not empty, each next one starts right after the one before, and the last ends at
  \<open>b - 1\<close>.
\<close>

fun tiles :: "int \<Rightarrow> ParsedSection list \<Rightarrow> int \<Rightarrow> bool" where
  "tiles a [] b = (a = b)"
| "tiles a (s # ss) b = (startLine s = a \<and> a \<le> endLine s \<and> tiles (endLine s + 1) ss b)"

text \<open>
  The quantities of the scoring formula, over all results: the number of checks, the
  number of checks passed, and the penalty of all issues.
\<close>

definition totalChecksOf :: "CheckResult list \<Rightarrow> nat" where
  "totalChecksOf rs = sum_list (map (\<lambda>r. passed r + failed r) rs)"

definition totalPassedOf :: "CheckResult list \<Rightarrow> nat" where
  "totalPassedOf rs = sum_list (map passed rs)"

definition penaltyOf :: "CheckResult list \<Rightarrow> nat" where
  "penaltyOf rs =
     15 * countSeverity Error (concat (map issues rs)) +
     7 * countSeverity Warn (concat (map issues rs)) +
     2 * countSeverity Info (concat (map issues rs))"

text \<open>The double that the code rounds to the score.\<close>

definition doubleScore :: "CheckResult list \<Rightarrow> rat" where
  "doubleScore rs =
     fl (fl (fl (of_nat (totalPassedOf rs) / of_nat (totalChecksOf rs)) * 100)
         - of_nat (penaltyOf rs))"

text \<open>
  The score as the specification words it, in exact arithmetic:
  \<open>clamp(round(100 \<times> totalPassed / totalChecks - penalty), 0, 100)\<close>, and 100 when
  there is no check.
\<close>

definition specScore :: "CheckResult list \<Rightarrow> int" where
  "specScore rs =
     (if totalChecksOf rs = 0 then 100
      else max 0 (min 100
             (jsRound (100 * of_nat (totalPassedOf rs) / of_nat (totalChecksOf rs)
                       - of_nat (penaltyOf rs)))))"

definition addIssue :: "LintIssue \<Rightarrow> nat \<Rightarrow> CheckResult list \<Rightarrow> CheckResult list" where
  \<comment> \<open>one more issue at the end of the issues of result \<open>k\<close>, the counters unchanged\<close>
  "addIssue i k rs = rs[k := (rs ! k)\<lparr>issues := issues (rs ! k) @ [i]\<rparr>]"

definition infoIssue :: LintIssue where
  "infoIssue = \<lparr>rule = ''missing-custom-section-x'', severity = Info, message = ''m'',
                 line = None, context' = None, suggestion = None\<rparr>"

definition errorIssue :: LintIssue where
  "errorIssue = \<lparr>rule = ''no-missing-path'', severity = Error, message = ''m'',
                  line = None, context' = None, suggestion = None\<rparr>"

text \<open>
  The heading lines of a document, each with its index, counted from \<open>start\<close>, and the
  number of lines before the first heading.
\<close>

definition headingLines :: "nat \<Rightarrow> string list \<Rightarrow> (nat \<times> string) list" where
  "headingLines start ls = filter (\<lambda>(i, l). headingMatch l \<noteq> None) (enumerate start ls)"

definition preamble :: "string list \<Rightarrow> nat" where
  "preamble ls = length (takeWhile (\<lambda>l. headingMatch l = None) ls)"

definition headOf :: "nat \<times> string \<Rightarrow> int \<times> string" where
  \<comment> \<open>the start line and the title that a heading line gives its section\<close>
  "headOf = (\<lambda>(i, l). (int i, trim (the (headingMatch l))))"

definition closeSection :: "nat \<Rightarrow> ParsedSection list \<times> ParsedSection option \<Rightarrow> ParsedSection list" where
  \<comment> \<open>the end of \<open>parseSections\<close>: the open section, if any, is closed at the last line\<close>
  "closeSection n acc =
     (case acc of
        (secs, Some c) \<Rightarrow> secs @ [c\<lparr>endLine := int n - 1\<rparr>]
      | (secs, None) \<Rightarrow> secs)"

text \<open>Sample inputs.\<close>

definition emptyDocument :: ParsedAgentsMd where
  \<comment> \<open>the parsed document of the empty text, as the helper \<open>makeParsed\<close> of the tests builds it\<close>
  "emptyDocument = \<lparr>rawContent = [], sections = [], mentionedPaths = [], mentionedScripts = [],
                     mentionedDependencies = [], mentionedFrameworks = [], lines = []\<rparr>"

definition momentManifest :: PackageJson where
  "momentManifest = \<lparr>dependencies = [(''moment'', ''^2.29.0'')], devDependencies = [],
                      peerDependencies = []\<rparr>"

text \<open>
  The session of fix mode, told from its inputs. \<open>offeredFixes\<close> are the fixes of the
  fixable issues of the report, in the order in which the session offers them.
  \<open>acceptedFixes fixes answers\<close> are the fixes accepted when the answers are given to
  the prompts in order: a fix is accepted by the answer \<open>y\<close> or \<open>yes\<close>, the answer \<open>q\<close>
  or \<open>quit\<close> ends the session, any other answer (and the empty answer, when none is left)
  declines; offering a section whose content is not a string ends the session with a
  \<open>TypeError\<close>. \<open>sectionTexts\<close> are the texts of the sections among some fixes, in order.
\<close>

definition offeredFixes :: "LintReport \<Rightarrow> string \<Rightarrow> FixAction list" where
  "offeredFixes report fileContent =
     List.map_filter (\<lambda>issue. buildFixAction issue (splitOn newline fileContent))
       (concat (map issues (results report)))"

fun acceptedFixes :: "FixAction list \<Rightarrow> string list \<Rightarrow> error + FixAction list" where
  "acceptedFixes [] answers = Inr []"
| "acceptedFixes (f # fs) answers =
     (if f = AddSection Inherited then Inl TypeError
      else (case answers of
              [] \<Rightarrow> acceptedFixes fs []
            | a # others \<Rightarrow>
                if a = ''q'' \<or> a = ''quit'' then Inr []
                else if a = ''y'' \<or> a = ''yes''
                then map_sum id ((#) f) (acceptedFixes fs others)
                else acceptedFixes fs others))"

definition sectionTexts :: "FixAction list \<Rightarrow> string list" where
  "sectionTexts fs = concat (map (\<lambda>f. case f of AddSection (Text t) \<Rightarrow> [t] | _ \<Rightarrow> []) fs)"

text \<open>The interactive loop over the fixes alone, the advisory issues left out.\<close>

fun fixesLoop :: "FixAction list \<Rightarrow> FixState \<Rightarrow> error + FixState" where
  "fixesLoop [] st = Inr st"
| "fixesLoop (f # fs) st =
     (if quit st then Inr st
      else (case decide f st of Inl e \<Rightarrow> Inl e | Inr st' \<Rightarrow> fixesLoop fs st'))"

section \<open>Properties of the matcher\<close>

lemma execAll_total:
  "0 < minlen r \<Longrightarrow> \<exists>ms. execAll r p s i = Some ms"
proof (induction r p s i rule: execAll.induct)
  case (1 r p s i)
  show ?case
  proof (cases "searchFrom r p s i")
    case None
    then show ?thesis by (subst execAll.simps) simp
  next
    case (Some m)
    obtain idx sfx p' s' g where m: "m = (idx, sfx, (p', s', g))" by (cases m) auto
    from searchFrom_ms Some m obtain q where "(p', s', g) \<in> set (ms r (q, sfx, []))"
      by blast
    from ms_length [OF this] have "length s' + minlen r \<le> length sfx" by (simp add: rest_def)
    with "1.prems" have lt: "length s' < length sfx" by linarith
    from "1.IH" [OF Some [unfolded m] refl refl refl refl lt "1.prems"]
    obtain ms' where "execAll r p' s' (idx + (length sfx - length s')) = Some ms'" by blast
    with Some m lt show ?thesis by (subst execAll.simps) simp
  qed
qed

lemma foldOpt_total:
  assumes "\<And>x acc. x \<in> set xs \<Longrightarrow> \<exists>acc'. f x acc = Some acc'"
  shows "\<exists>res. foldOpt f xs acc = Some res"
  using assms
proof (induction xs arbitrary: acc)
  case Nil
  then show ?case by simp
next
  case (Cons x xs)
  from Cons.prems [of x acc] obtain acc' where "f x acc = Some acc'" by auto
  moreover from Cons.IH [of acc'] Cons.prems obtain res where "foldOpt f xs acc' = Some res"
    by auto
  ultimately show ?case by simp
qed

lemma PATH_PATTERNS_minlen: "\<forall>r \<in> set PATH_PATTERNS. 0 < minlen r"
  by code_simp

lemma SCRIPT_PATTERNS_minlen: "\<forall>r \<in> set SCRIPT_PATTERNS. 0 < minlen r"
  by code_simp

lemma DEPENDENCY_PATTERNS_minlen: "\<forall>r \<in> set DEPENDENCY_PATTERNS. 0 < minlen r"
  by code_simp

lemma extractPaths_total: "\<exists>paths. extractPaths doc = Some paths"
  unfolding extractPaths_def matchesOf_def
  by (rule foldOpt_total) (use PATH_PATTERNS_minlen execAll_total in fastforce)

lemma extractScripts_total: "\<exists>scripts. extractScripts doc = Some scripts"
  unfolding extractScripts_def matchesOf_def
  by (rule foldOpt_total) (use SCRIPT_PATTERNS_minlen execAll_total in fastforce)

lemma extractDependencies_total: "\<exists>deps. extractDependencies doc = Some deps"
  unfolding extractDependencies_def matchesOf_def
  by (rule foldOpt_total) (use DEPENDENCY_PATTERNS_minlen execAll_total in fastforce)

lemma parseAgentsMd_total: "\<exists>parsed \<sigma>'. parseAgentsMd raw \<sigma> = Some (parsed, \<sigma>')"
proof -
  obtain paths scripts deps where
    "extractPaths raw = Some paths" "extractScripts raw = Some scripts"
    "extractDependencies raw = Some deps"
    using extractPaths_total extractScripts_total extractDependencies_total by blast
  then show ?thesis
    by (cases "extractFrameworks raw \<sigma>") (simp add: parseAgentsMd_def)
qed

section \<open>Properties of the parser\<close>

text \<open>
  C5 (extraction is deterministic: parsing the same text twice gives the same paths,
  scripts, dependencies, frameworks and sections). The code does not do this. On the
  text \<open>NgModule\<close>, the first call of the parser after the module is loaded reports the
  framework \<open>angular\<close>; the call leaves \<open>lastIndex = 8\<close> in the pattern object
  \<open>/NgModule/g\<close>, and the second call on the same text searches from there, finds
  nothing and reports no framework.
\<close>

theorem parseAgentsMd_twice_differs:
  "map_option (\<lambda>r. mentionedFrameworks (fst r)) (parseAgentsMd ''NgModule'' initialRegexState)
     = Some [''angular''] \<and>
   (case parseAgentsMd ''NgModule'' initialRegexState of
      None \<Rightarrow> None
    | Some (parsed, \<sigma>) \<Rightarrow>
        map_option (\<lambda>r. mentionedFrameworks (fst r)) (parseAgentsMd ''NgModule'' \<sigma>))
     = Some []"
  by code_simp

text \<open>
  C9 (every extracted string is non-empty). The code does not do this for dependencies.
  The first dependency pattern accepts a scoped package name, which starts with \<open>@\<close>,
  and the name is then cut at the first \<open>@\<close>: for the text
  \<open>`@angular/core@17.0.0`\<close> the set of mentioned dependencies holds the empty string
  (and \<open>angular\<close>, from the second pattern).
\<close>

theorem extractDependencies_scoped_name_empty:
  "extractDependencies ''`@angular/core@17.0.0`'' = Some ['''', ''angular'']"
  by code_simp

section \<open>Properties of the rounding\<close>

lemma floorlog_two_bounds:
  assumes "0 < (a::int)"
  shows "(2::rat) powi (int (floorlog 2 (nat a)) - 1) \<le> of_int a"
    and "of_int a < (2::rat) powi (int (floorlog 2 (nat a)))"
proof -
  let ?l = "floorlog 2 (nat a)"
  from assms have pos: "0 < nat a" by simp
  from floorlog_bounds [OF pos, of 2] have b: "2 ^ (?l - 1) \<le> nat a" "nat a < 2 ^ ?l" by simp_all
  from pos have l: "0 < ?l" by (simp add: floorlog_eq_zero_iff Suc_le_eq zero_less_iff_neq_zero)
  have "(2::rat) ^ (?l - 1) = of_nat (2 ^ (?l - 1))" by simp
  also have "\<dots> \<le> of_nat (nat a)" using b(1) by (simp only: of_nat_le_iff)
  also have "\<dots> = of_int a" using assms by simp
  finally have "(2::rat) ^ (?l - 1) \<le> of_int a" .
  moreover have "int ?l - 1 = int (?l - 1)" using l by linarith
  ultimately show "(2::rat) powi (int ?l - 1) \<le> of_int a"
    by (simp only: power_int_of_nat)
  have "of_int a = (of_nat (nat a) :: rat)" using assms by simp
  also have "\<dots> < of_nat (2 ^ ?l)" using b(2) by (simp only: of_nat_less_iff)
  also have "\<dots> = 2 ^ ?l" by simp
  finally show "of_int a < (2::rat) powi (int ?l)" by (simp only: power_int_of_nat)
qed

lemma ilog2_bounds:
  assumes "0 < x"
  shows "2 powi ilog2 x \<le> x" and "x < 2 powi (ilog2 x + 1)"
proof -
  obtain a b where q: "quotient_of x = (a, b)" by (cases "quotient_of x")
  from quotient_of_div [OF q] have x: "x = of_int a / of_int b" .
  from quotient_of_denom_pos [OF q] have b: "0 < b" .
  with x assms have a: "0 < a" by (simp add: zero_less_divide_iff)
  let ?la = "int (floorlog 2 (nat a))" and ?lb = "int (floorlog 2 (nat b))"
  let ?d = "?la - ?lb"
  note A = floorlog_two_bounds [OF a] and B = floorlog_two_bounds [OF b]
  have bpos: "(0::rat) < of_int b" using b by simp
  have apos: "(0::rat) \<le> of_int a" using a by simp
  have "x < 2 powi ?la / 2 powi (?lb - 1)"
    unfolding x by (rule frac_less [OF apos A(2) _ B(1)]) simp
  also have "\<dots> = 2 powi (?la - (?lb - 1))" by (rule power_int_diff [symmetric]) simp
  also have "?la - (?lb - 1) = ?d + 1" by linarith
  finally have up: "x < 2 powi (?d + 1)" .
  have "?d - 1 = (?la - 1) - ?lb" by linarith
  then have "2 powi (?d - 1) = (2::rat) powi ((?la - 1) - ?lb)" by (rule arg_cong)
  also have "\<dots> = 2 powi (?la - 1) / 2 powi ?lb" by (rule power_int_diff) simp
  also have "\<dots> \<le> x"
    unfolding x by (rule frac_le [OF apos A(1) bpos less_imp_le [OF B(2)]])
  finally have lo: "2 powi (?d - 1) \<le> x" .
  have e: "ilog2 x = (if 2 powi ?d \<le> x then ?d else ?d - 1)"
    by (simp add: ilog2_def q Let_def)
  show "2 powi ilog2 x \<le> x" using lo by (simp add: e)
  show "x < 2 powi (ilog2 x + 1)" using up by (simp add: e not_le)
qed

lemma ilog2_unique:
  assumes "0 < x" "2 powi e \<le> x" "x < 2 powi (e + 1)"
  shows "ilog2 x = e"
proof (rule ccontr)
  assume ne: "ilog2 x \<noteq> e"
  note b = ilog2_bounds [OF assms(1)]
  show False
  proof (cases "ilog2 x < e")
    case True
    then have "(2::rat) powi (ilog2 x + 1) \<le> 2 powi e" by (intro power_int_increasing) simp_all
    with b(2) assms(2) show False by simp
  next
    case False
    with ne have "e + 1 \<le> ilog2 x" by simp
    then have "(2::rat) powi (e + 1) \<le> 2 powi ilog2 x" by (intro power_int_increasing) simp_all
    with b(1) assms(3) show False by simp
  qed
qed

lemma ilog2_mono:
  assumes "0 < x" "x \<le> y"
  shows "ilog2 x \<le> ilog2 y"
proof (rule ccontr)
  assume "\<not> ilog2 x \<le> ilog2 y"
  then have "ilog2 y + 1 \<le> ilog2 x" by simp
  then have "(2::rat) powi (ilog2 y + 1) \<le> 2 powi ilog2 x" by (intro power_int_increasing) simp_all
  moreover from assms have "0 < y" by simp
  ultimately show False using ilog2_bounds(1) [OF assms(1)] ilog2_bounds(2) [of y] assms(2) by simp
qed

lemma rne_of_int [simp]: "rne (of_int n) = n"
  by (simp add: rne_def)

lemma rne_cases: "rne x = \<lfloor>x\<rfloor> \<or> rne x = \<lfloor>x\<rfloor> + 1"
  by (simp add: rne_def Let_def)

lemma rne_err: "\<bar>of_int (rne x) - x\<bar> \<le> 1 / 2"
proof -
  have "of_int \<lfloor>x\<rfloor> \<le> x" "x < of_int \<lfloor>x\<rfloor> + 1" by linarith+
  then show ?thesis by (auto simp: rne_def Let_def)
qed

lemma rne_mono:
  assumes "x \<le> y"
  shows "rne x \<le> rne y"
proof (cases "\<lfloor>x\<rfloor> = \<lfloor>y\<rfloor>")
  case True
  with assms show ?thesis by (auto simp: rne_def Let_def)
next
  case False
  with assms have "\<lfloor>x\<rfloor> + 1 \<le> \<lfloor>y\<rfloor>" using floor_mono [OF assms] by linarith
  moreover have "rne x \<le> \<lfloor>x\<rfloor> + 1" using rne_cases [of x] by auto
  moreover have "\<lfloor>y\<rfloor> \<le> rne y" using rne_cases [of y] by auto
  ultimately show ?thesis by linarith
qed

lemma rne_zero [simp]: "rne 0 = 0"
  using rne_of_int [of 0] by simp

lemma rne_nonneg: "0 \<le> x \<Longrightarrow> 0 \<le> rne x"
  using rne_mono [of 0 x] by simp

lemma ulpExp_minus [simp]: "ulpExp (- x) = ulpExp x"
  by (simp add: ulpExp_def)

lemma ulpExp_mono:
  assumes "0 < x" "x \<le> y"
  shows "ulpExp x \<le> ulpExp y"
proof -
  from assms have "\<bar>x\<bar> = x" "\<bar>y\<bar> = y" by simp_all
  with ilog2_mono [OF assms] show ?thesis by (simp add: ulpExp_def)
qed

lemma fl_zero [simp]: "fl 0 = 0"
  by (simp add: fl_def)

lemma fl_pos:
  "0 < x \<Longrightarrow> fl x = of_int (rne (x / 2 powi ulpExp x)) * 2 powi ulpExp x"
  by (simp add: fl_def)

lemma fl_minus: "fl (- x) = - fl x"
  by (simp add: fl_def sgn_minus)

lemma fl_nonneg:
  assumes "0 \<le> x"
  shows "0 \<le> fl x"
proof (cases "x = 0")
  case True
  then show ?thesis by simp
next
  case False
  with assms have pos: "0 < x" by simp
  then have "0 \<le> x / 2 powi ulpExp x" by simp
  from rne_nonneg [OF this] show ?thesis by (simp add: fl_pos [OF pos])
qed

lemma fl_pos_mono:
  assumes "0 < x" "x \<le> y"
  shows "fl x \<le> fl y"
proof -
  from assms have ypos: "0 < y" by simp
  let ?kx = "ulpExp x" and ?ky = "ulpExp y"
  have k: "?kx \<le> ?ky" by (rule ulpExp_mono [OF assms])
  have ux: "(0::rat) < 2 powi ?kx" and uy: "(0::rat) < 2 powi ?ky" by simp_all
  show ?thesis
  proof (cases "?kx = ?ky")
    case True
    from assms(2) ux have "x / 2 powi ?kx \<le> y / 2 powi ?kx" by (simp add: divide_right_mono)
    from rne_mono [OF this] have "(of_int (rne (x / 2 powi ?kx)) :: rat) \<le> of_int (rne (y / 2 powi ?kx))"
      by simp
    then have "(of_int (rne (x / 2 powi ?kx)) :: rat) * 2 powi ?kx
                 \<le> of_int (rne (y / 2 powi ?kx)) * 2 powi ?kx"
      using ux by (intro mult_right_mono) simp_all
    then show ?thesis by (simp add: fl_pos [OF assms(1)] fl_pos [OF ypos] True)
  next
    case False
    with k have lt: "?kx < ?ky" by simp
    let ?ey = "ilog2 y"
    have absx: "\<bar>x\<bar> = x" and absy: "\<bar>y\<bar> = y" using assms(1) ypos by simp_all
    have kx_ge: "ilog2 x - 52 \<le> ?kx" and kx_ge': "- 1074 \<le> ?kx" by (simp_all add: ulpExp_def absx)
    from lt kx_ge' have ky: "?ky = ?ey - 52" by (simp add: ulpExp_def absy max_def split: if_splits)
    define B :: rat where "B = 2 powi ?ey"
    have ex_lt: "ilog2 x + 1 \<le> ?ey" using lt kx_ge ky by linarith
    have d_nonneg: "0 \<le> ?ey - ?kx" using lt ky by linarith
    \<comment> \<open>the double of \<open>x\<close> is at most \<open>B\<close>\<close>
    have "x < 2 powi (ilog2 x + 1)" by (rule ilog2_bounds(2) [OF assms(1)])
    also have "\<dots> \<le> B" unfolding B_def using ex_lt by (intro power_int_increasing) simp_all
    finally have "x / 2 powi ?kx \<le> B / 2 powi ?kx" using ux by (simp add: divide_right_mono)
    also have "B / 2 powi ?kx = 2 powi (?ey - ?kx)"
      unfolding B_def by (rule power_int_diff [symmetric]) simp
    also have "\<dots> = of_int (2 ^ nat (?ey - ?kx))"
      using d_nonneg by (simp add: power_int_def)
    finally have "x / 2 powi ?kx \<le> of_int (2 ^ nat (?ey - ?kx))" .
    then have "rne (x / 2 powi ?kx) \<le> rne (of_int (2 ^ nat (?ey - ?kx)))" by (rule rne_mono)
    then have "rne (x / 2 powi ?kx) \<le> 2 ^ nat (?ey - ?kx)" by (simp only: rne_of_int)
    then have "(of_int (rne (x / 2 powi ?kx)) :: rat) \<le> of_int (2 ^ nat (?ey - ?kx))"
      by (simp only: of_int_le_iff)
    then have "fl x \<le> of_int (2 ^ nat (?ey - ?kx)) * 2 powi ?kx"
      using ux by (simp add: fl_pos [OF assms(1)] mult_right_mono)
    also have "of_int (2 ^ nat (?ey - ?kx)) = (2::rat) powi (?ey - ?kx)"
      using d_nonneg by (simp add: power_int_def)
    also have "2 powi (?ey - ?kx) * 2 powi ?kx = (2::rat) powi (?ey - ?kx + ?kx)"
      by (rule power_int_add [symmetric]) simp
    also have "?ey - ?kx + ?kx = ?ey" by simp
    finally have flx: "fl x \<le> B" by (simp add: B_def)
    \<comment> \<open>the double of \<open>y\<close> is at least \<open>B\<close>\<close>
    have "B \<le> y" unfolding B_def by (rule ilog2_bounds(1) [OF ypos])
    then have "B / 2 powi ?ky \<le> y / 2 powi ?ky" using uy by (simp add: divide_right_mono)
    moreover have "B / 2 powi ?ky = 2 powi (?ey - ?ky)"
      unfolding B_def by (rule power_int_diff [symmetric]) simp
    moreover have "?ey - ?ky = 52" using ky by simp
    ultimately have "of_int (2 ^ 52) \<le> y / 2 powi ?ky" by simp
    then have "rne (of_int (2 ^ 52)) \<le> rne (y / 2 powi ?ky)" by (rule rne_mono)
    then have "2 ^ 52 \<le> rne (y / 2 powi ?ky)" by (simp only: rne_of_int)
    then have "(of_int (2 ^ 52) :: rat) \<le> of_int (rne (y / 2 powi ?ky))"
      by (simp only: of_int_le_iff)
    then have "of_int (2 ^ 52) * 2 powi ?ky \<le> fl y"
      using uy by (simp add: fl_pos [OF ypos] mult_right_mono)
    moreover have "(of_int (2 ^ 52) :: rat) * 2 powi ?ky = 2 powi 52 * 2 powi ?ky" by simp
    moreover have "(2::rat) powi 52 * 2 powi ?ky = 2 powi (52 + ?ky)"
      by (rule power_int_add [symmetric]) simp
    moreover have "52 + ?ky = ?ey" using ky by simp
    ultimately have "B \<le> fl y" by (simp add: B_def)
    with flx show ?thesis by simp
  qed
qed

lemma fl_mono:
  assumes "x \<le> y"
  shows "fl x \<le> fl y"
proof -
  consider "0 < x" | "x = 0" | "x < 0" "0 \<le> y" | "x < 0" "y < 0" by linarith
  then show ?thesis
  proof cases
    case 1
    then show ?thesis by (rule fl_pos_mono [OF _ assms])
  next
    case 2
    with assms fl_nonneg [of y] show ?thesis by simp
  next
    case 3
    from 3(1) have "0 \<le> fl (- x)" by (intro fl_nonneg) simp
    then have "fl x \<le> 0" by (simp add: fl_minus)
    with fl_nonneg [OF 3(2)] show ?thesis by simp
  next
    case 4
    from 4(2) assms have "fl (- y) \<le> fl (- x)" by (intro fl_pos_mono) simp_all
    then show ?thesis by (simp add: fl_minus)
  qed
qed

lemma fl_err: "\<bar>fl x - x\<bar> \<le> 2 powi ulpExp x / 2"
proof (cases "x = 0")
  case True
  then show ?thesis by simp
next
  case False
  let ?u = "(2::rat) powi ulpExp x"
  have u: "0 < ?u" by simp
  let ?r = "(of_int (rne (\<bar>x\<bar> / ?u)) :: rat)"
  have "fl x - x = sgn x * (?r * ?u - \<bar>x\<bar>)"
    using False by (simp add: fl_def algebra_simps abs_mult_sgn)
  then have "\<bar>fl x - x\<bar> = \<bar>?r * ?u - \<bar>x\<bar>\<bar>"
    using False by (simp add: abs_mult abs_sgn_eq)
  also have "?r * ?u - \<bar>x\<bar> = (?r - \<bar>x\<bar> / ?u) * ?u" using u by (simp add: algebra_simps)
  also have "\<bar>\<dots>\<bar> = \<bar>?r - \<bar>x\<bar> / ?u\<bar> * ?u" using u by (simp add: abs_mult)
  also have "\<dots> \<le> (1 / 2) * ?u" using rne_err [of "\<bar>x\<bar> / ?u"] u by (intro mult_right_mono) simp_all
  finally show ?thesis by simp
qed

lemma ulpExp_le:
  assumes "x \<noteq> 0" "\<bar>x\<bar> < 2 powi (e + 1)" "- 1074 \<le> e - 52"
  shows "ulpExp x \<le> e - 52"
proof -
  have pos: "0 < \<bar>x\<bar>" using assms(1) by simp
  have "ilog2 \<bar>x\<bar> \<le> e"
  proof (rule ccontr)
    assume "\<not> ilog2 \<bar>x\<bar> \<le> e"
    then have "e + 1 \<le> ilog2 \<bar>x\<bar>" by simp
    then have "(2::rat) powi (e + 1) \<le> 2 powi ilog2 \<bar>x\<bar>" by (intro power_int_increasing) simp_all
    with ilog2_bounds(1) [OF pos] assms(2) show False by simp
  qed
  with assms(3) show ?thesis by (simp add: ulpExp_def)
qed

lemma fl_err_small:
  assumes "\<bar>x\<bar> < 128"
  shows "\<bar>fl x - x\<bar> \<le> 1 / 2 ^ 47"
proof (cases "x = 0")
  case True
  then show ?thesis by simp
next
  case False
  from assms have "\<bar>x\<bar> < 2 powi (6 + 1)" by simp
  from ulpExp_le [OF False this] have "ulpExp x \<le> - 46" by simp
  then have "(2::rat) powi ulpExp x \<le> 2 powi (- 46)" by (intro power_int_increasing) simp_all
  with fl_err [of x] have "\<bar>fl x - x\<bar> \<le> 2 powi (- 46) / 2" by simp
  also have "(2::rat) powi (- 46) / 2 = 1 / 2 ^ 47" by (simp add: power_int_minus_divide)
  finally show ?thesis .
qed

lemma fl_exact:
  assumes "x = of_int n * 2 powi k" "ulpExp x \<le> k"
  shows "fl x = x"
proof (cases "x = 0")
  case True
  then show ?thesis by simp
next
  case False
  let ?u = "ulpExp x"
  have d: "0 \<le> k - ?u" using assms(2) by simp
  have "(2::rat) powi k = 2 powi (k - ?u + ?u)" by simp
  also have "\<dots> = 2 powi (k - ?u) * 2 powi ?u" by (rule power_int_add) simp
  also have "(2::rat) powi (k - ?u) = of_int (2 ^ nat (k - ?u))" using d by (simp add: power_int_def)
  finally have k: "(2::rat) powi k = of_int (2 ^ nat (k - ?u)) * 2 powi ?u" .
  have "\<bar>x\<bar> = of_int \<bar>n\<bar> * 2 powi k" by (simp add: assms(1) abs_mult)
  also have "\<dots> = of_int \<bar>n\<bar> * (of_int (2 ^ nat (k - ?u)) * 2 powi ?u)" by (simp only: k)
  also have "\<dots> = of_int (\<bar>n\<bar> * 2 ^ nat (k - ?u)) * 2 powi ?u" by simp
  finally have E: "\<bar>x\<bar> = of_int (\<bar>n\<bar> * 2 ^ nat (k - ?u)) * 2 powi ?u" .
  then have q: "\<bar>x\<bar> / 2 powi ?u = of_int (\<bar>n\<bar> * 2 ^ nat (k - ?u))" by simp
  have "fl x = sgn x * (of_int (\<bar>n\<bar> * 2 ^ nat (k - ?u)) * 2 powi ?u)"
    using False by (simp only: fl_def q rne_of_int if_False mult.assoc)
  also have "of_int (\<bar>n\<bar> * 2 ^ nat (k - ?u)) * 2 powi ?u = \<bar>x\<bar>" by (rule E [symmetric])
  finally show ?thesis by (simp add: mult_sgn_abs)
qed

lemma fl_eval:
  assumes "0 < x" "2 powi e \<le> x" "x < 2 powi (e + 1)"
  shows "fl x = of_int (rne (x / 2 powi max (e - 52) (- 1074))) * 2 powi max (e - 52) (- 1074)"
  using assms by (simp add: fl_pos ulpExp_def ilog2_unique [OF assms])

lemma rne_divide:
  assumes "0 < b"
  shows "rne (of_int a / of_int b) =
     (if 2 * (a mod b) < b then a div b
      else if b < 2 * (a mod b) then a div b + 1
      else if even (a div b) then a div b else a div b + 1)"
proof -
  have f: "\<lfloor>(of_int a :: rat) / of_int b\<rfloor> = a div b" by (rule floor_divide_of_int_eq)
  have "(of_int a :: rat) = of_int (a div b * b + a mod b)" by simp
  also have "\<dots> = of_int (a div b) * of_int b + of_int (a mod b)"
    by (simp only: of_int_add of_int_mult)
  finally have d: "(of_int a :: rat) / of_int b - of_int (a div b) = of_int (a mod b) / of_int b"
    using assms by (simp add: field_simps)
  have lt: "(of_int (a mod b) :: rat) / of_int b < 1 / 2 \<longleftrightarrow> 2 * (a mod b) < b"
  proof -
    have "(of_int (a mod b) :: rat) / of_int b < 1 / 2 \<longleftrightarrow> (of_int (2 * (a mod b)) :: rat) < of_int b"
      using assms by (simp add: field_simps)
    then show ?thesis by (simp only: of_int_less_iff)
  qed
  have gt: "1 / 2 < (of_int (a mod b) :: rat) / of_int b \<longleftrightarrow> b < 2 * (a mod b)"
  proof -
    have "1 / 2 < (of_int (a mod b) :: rat) / of_int b \<longleftrightarrow> (of_int b :: rat) < of_int (2 * (a mod b))"
      using assms by (simp add: field_simps)
    then show ?thesis by (simp only: of_int_less_iff)
  qed
  show ?thesis
    unfolding rne_def Let_def f d lt gt ..
qed

lemma rne_numeral_divide:
  "rne (numeral a / numeral b) =
     (if 2 * (numeral a mod numeral b) < (numeral b :: int) then numeral a div numeral b
      else if (numeral b :: int) < 2 * (numeral a mod numeral b) then numeral a div numeral b + 1
      else if even (numeral a div numeral b :: int) then numeral a div numeral b
      else numeral a div numeral b + 1)"
  using rne_divide [of "numeral b" "numeral a"] by simp

lemma rne_numeral [simp]: "rne (numeral a) = numeral a"
  using rne_of_int [of "numeral a"] by simp

section \<open>Properties of the score\<close>

lemma fold_addPenalty:
  "fold addPenalty iss w =
     w + 15 * countSeverity Error iss + 7 * countSeverity Warn iss + 2 * countSeverity Info iss"
proof (induction iss arbitrary: w)
  case Nil
  then show ?case by (simp add: countSeverity_def)
next
  case (Cons i iss)
  have step: "addPenalty i w = w + (case severity i of Error \<Rightarrow> 15 | Warn \<Rightarrow> 7 | Info \<Rightarrow> 2)"
    by (simp add: addPenalty_def split: Severity.splits)
  have "fold addPenalty (i # iss) w = fold addPenalty iss (addPenalty i w)" by simp
  also note Cons.IH
  finally show ?case
    by (cases "severity i") (simp_all add: step countSeverity_def)
qed

lemma countSeverity_append [simp]:
  "countSeverity s (xs @ ys) = countSeverity s xs + countSeverity s ys"
  by (simp add: countSeverity_def)

lemma fold_scoreStep:
  "fold scoreStep rs (c, p, w) = (c + totalChecksOf rs, p + totalPassedOf rs, w + penaltyOf rs)"
proof (induction rs arbitrary: c p w)
  case Nil
  then show ?case by (simp add: totalChecksOf_def totalPassedOf_def penaltyOf_def countSeverity_def)
next
  case (Cons r rs)
  have step: "scoreStep r (c, p, w) =
      (c + (passed r + failed r), p + passed r,
       w + 15 * countSeverity Error (issues r) + 7 * countSeverity Warn (issues r)
         + 2 * countSeverity Info (issues r))"
    by (simp add: scoreStep_def fold_addPenalty)
  have "fold scoreStep (r # rs) (c, p, w) = fold scoreStep rs (scoreStep r (c, p, w))" by simp
  also note step
  also note Cons.IH
  finally show ?case
    by (simp add: totalChecksOf_def totalPassedOf_def penaltyOf_def algebra_simps)
qed

lemma computeScore_closed:
  "computeScore rs =
     (if totalChecksOf rs = 0 then 100 else max 0 (min 100 (jsRound (doubleScore rs))))"
  by (simp add: computeScore_def fold_scoreStep doubleScore_def Let_def)

lemma computeScore_range: "0 \<le> computeScore rs" "computeScore rs \<le> 100"
  by (simp_all add: computeScore_closed)

lemma scoreGrade_bands:
  "scoreGrade s = ''A'' \<longleftrightarrow> 90 \<le> s"
  "scoreGrade s = ''B'' \<longleftrightarrow> 80 \<le> s \<and> s < 90"
  "scoreGrade s = ''C'' \<longleftrightarrow> 70 \<le> s \<and> s < 80"
  "scoreGrade s = ''D'' \<longleftrightarrow> 50 \<le> s \<and> s < 70"
  "scoreGrade s = ''F'' \<longleftrightarrow> s < 50"
  by (auto simp: scoreGrade_def)

lemma jsRound_mono: "x \<le> y \<Longrightarrow> jsRound x \<le> jsRound y"
  by (simp add: jsRound_def floor_mono)

lemma totalPassed_le: "totalPassedOf rs \<le> totalChecksOf rs"
  by (induction rs) (simp_all add: totalPassedOf_def totalChecksOf_def)

text \<open>The pass rate as a double is within \<open>2^-40\<close> of the exact pass rate.\<close>

lemma base_close:
  assumes "0 < totalChecksOf rs"
  defines "v \<equiv> 100 * of_nat (totalPassedOf rs) / (of_nat (totalChecksOf rs) :: rat)"
  defines "b \<equiv> fl (fl (of_nat (totalPassedOf rs) / of_nat (totalChecksOf rs)) * 100)"
  shows "\<bar>b - v\<bar> \<le> 1 / 2 ^ 40" and "0 \<le> b" and "b < 128" and "0 \<le> v" and "v \<le> 100"
proof -
  let ?r = "of_nat (totalPassedOf rs) / (of_nat (totalChecksOf rs) :: rat)"
  let ?q = "fl ?r"
  have r: "0 \<le> ?r" "?r \<le> 1" using assms(1) totalPassed_le [of rs] by simp_all
  then have "\<bar>?r\<bar> < 128" by simp
  from fl_err_small [OF this] have "\<bar>?q - ?r\<bar> \<le> 1 / 2 ^ 47" .
  then have q: "?q - ?r \<le> 1 / 2 ^ 47" "- (?q - ?r) \<le> 1 / 2 ^ 47" by (simp_all only: abs_le_iff)
  have q0: "0 \<le> ?q" using r(1) by (rule fl_nonneg)
  have q1: "?q * 100 < 128" using q(1) r(2) by simp
  have q2: "0 \<le> ?q * 100" using q0 by simp
  from q1 q2 have "\<bar>?q * 100\<bar> < 128" by simp
  from fl_err_small [OF this] have "\<bar>b - ?q * 100\<bar> \<le> 1 / 2 ^ 47" by (simp only: b_def)
  then have e: "b - ?q * 100 \<le> 1 / 2 ^ 47" "- (b - ?q * 100) \<le> 1 / 2 ^ 47"
    by (simp_all only: abs_le_iff)
  have v: "v = ?r * 100" by (simp add: v_def)
  have "b - v \<le> 1 / 2 ^ 40" "- (b - v) \<le> 1 / 2 ^ 40" using q e unfolding v by simp_all
  then show "\<bar>b - v\<bar> \<le> 1 / 2 ^ 40" by (simp only: abs_le_iff)
  show "0 \<le> b" unfolding b_def using q2 by (rule fl_nonneg)
  from e(1) q(1) r(2) show "b < 128" by simp
  have "0 \<le> ?r * 100" using r(1) by (intro mult_nonneg_nonneg) simp_all
  moreover have "?r * 100 \<le> 1 * 100" using r(2) by (intro mult_right_mono) simp_all
  ultimately show "0 \<le> v" "v \<le> 100" by (simp_all only: v)
qed

lemma jsRound_zero: "jsRound 0 = 0"
  unfolding jsRound_def by (rule floor_unique) simp_all

lemma clamp_mono: "a \<le> b \<Longrightarrow> max 0 (min 100 a) \<le> max (0::int) (min 100 b)"
  by linarith

lemma countSeverity_Cons [simp]:
  "countSeverity s (i # xs) = (if severity i = s then 1 else 0) + countSeverity s xs"
  by (simp add: countSeverity_def)

lemma countSeverity_Nil [simp]: "countSeverity s [] = 0"
  by (simp add: countSeverity_def)

lemma jsRound_le: "of_int (jsRound x) \<le> x + 1 / 2"
  unfolding jsRound_def by (rule of_int_floor_le)

lemma jsRound_gt: "x - 1 / 2 < of_int (jsRound x)"
  unfolding jsRound_def by linarith

text \<open>The score is below the pass rate plus one minus the penalty, or it is 0.\<close>

lemma computeScore_upper:
  assumes "0 < totalChecksOf rs"
  defines "v \<equiv> 100 * of_nat (totalPassedOf rs) / (of_nat (totalChecksOf rs) :: rat)"
  shows "computeScore rs = 0 \<or> of_int (computeScore rs) < v + 1 - of_nat (penaltyOf rs)"
proof -
  define b where "b = fl (fl (of_nat (totalPassedOf rs) / of_nat (totalChecksOf rs)) * 100)"
  define W :: rat where "W = of_nat (penaltyOf rs)"
  note B = base_close [OF assms(1), folded v_def b_def]
  have B1: "b - v \<le> 1 / 2 ^ 40" using B(1) by (simp only: abs_le_iff)
  have ds: "doubleScore rs = fl (b - W)" by (simp add: doubleScore_def b_def W_def)
  have W0: "0 \<le> W" by (simp add: W_def)
  have cs: "computeScore rs = max 0 (min 100 (jsRound (fl (b - W))))"
    using assms(1) by (simp add: computeScore_closed ds)
  show ?thesis
  proof (cases "b - W < 0")
    case True
    then have "fl (b - W) \<le> fl 0" by (intro fl_mono) simp
    then have "jsRound (fl (b - W)) \<le> jsRound 0" by (intro jsRound_mono) simp
    then have "jsRound (fl (b - W)) \<le> 0" by (simp only: jsRound_zero)
    then show ?thesis by (simp add: cs)
  next
    case False
    with B(3) W0 have "\<bar>b - W\<bar> < 128" by simp
    from fl_err_small [OF this] have "fl (b - W) - (b - W) \<le> 1 / 2 ^ 47" by (simp only: abs_le_iff)
    with jsRound_le [of "fl (b - W)"] B1
    have J: "of_int (jsRound (fl (b - W))) < v + 1 - W" by simp
    show ?thesis
    proof (cases "jsRound (fl (b - W)) \<le> 0")
      case True
      then show ?thesis by (simp add: cs)
    next
      case False
      then have "computeScore rs \<le> jsRound (fl (b - W))" by (simp add: cs)
      then have "(of_int (computeScore rs) :: rat) \<le> of_int (jsRound (fl (b - W)))"
        by (simp only: of_int_le_iff)
      with J show ?thesis by (simp add: W_def)
    qed
  qed
qed

lemma penaltyOf_pos:
  assumes "concat (map issues rs) \<noteq> []"
  shows "2 \<le> penaltyOf rs"
proof -
  from assms obtain i iss where c: "concat (map issues rs) = i # iss"
    by (cases "concat (map issues rs)") auto
  show ?thesis
    by (cases "severity i") (simp_all add: penaltyOf_def c countSeverity_def)
qed

lemma penaltyOf_addIssue:
  assumes "k < length rs"
  shows "penaltyOf rs \<le> penaltyOf (addIssue i k rs)"
    and "totalChecksOf (addIssue i k rs) = totalChecksOf rs"
    and "totalPassedOf (addIssue i k rs) = totalPassedOf rs"
proof -
  have split: "rs = take k rs @ (rs ! k) # drop (Suc k) rs"
    using assms by (simp add: id_take_nth_drop)
  have upd: "addIssue i k rs = take k rs @ ((rs ! k)\<lparr>issues := issues (rs ! k) @ [i]\<rparr>) # drop (Suc k) rs"
    using assms by (simp add: addIssue_def upd_conv_take_nth_drop)
  have c: "\<And>s. countSeverity s (concat (map issues (addIssue i k rs)))
             = countSeverity s (concat (map issues rs)) + (if severity i = s then 1 else 0)"
    by (subst (2) split, subst upd) simp
  show "penaltyOf rs \<le> penaltyOf (addIssue i k rs)" by (simp add: penaltyOf_def c)
  show "totalChecksOf (addIssue i k rs) = totalChecksOf rs"
    by (subst (2) split, subst upd) (simp add: totalChecksOf_def)
  show "totalPassedOf (addIssue i k rs) = totalPassedOf rs"
    by (subst (2) split, subst upd) (simp add: totalPassedOf_def)
qed

lemma computeScore_addIssue:
  assumes "k < length rs"
  shows "computeScore (addIssue i k rs) \<le> computeScore rs"
proof -
  note P = penaltyOf_addIssue [OF assms, of i]
  have "doubleScore (addIssue i k rs) \<le> doubleScore rs"
    unfolding doubleScore_def P(2,3) using P(1) by (intro fl_mono) simp
  from clamp_mono [OF jsRound_mono [OF this]] show ?thesis
    by (simp only: computeScore_closed P(2) split: if_splits) simp
qed

lemma fl_minus_one: "fl (- 1) = - 1"
proof (rule fl_exact [where n = "- 1" and k = 0])
  show "(- 1 :: rat) = of_int (- 1) * 2 powi 0" by simp
  show "ulpExp (- 1) \<le> 0"
    using ulpExp_le [of "- 1" 0] by simp
qed

lemma jsRound_near:
  assumes "\<bar>y - x\<bar> < 1"
  shows "\<bar>jsRound y - jsRound x\<bar> \<le> 1"
proof -
  from assms have a: "y < x + 1" "x < y + 1" by (simp_all add: abs_less_iff)
  note fy = of_int_floor_le [of "y + 1 / 2"] floor_correct [of "y + 1 / 2"]
  note fx = of_int_floor_le [of "x + 1 / 2"] floor_correct [of "x + 1 / 2"]
  have "(of_int \<lfloor>y + 1 / 2\<rfloor> :: rat) < of_int \<lfloor>x + 1 / 2\<rfloor> + 2"
    using a fy fx by linarith
  then have "(of_int \<lfloor>y + 1 / 2\<rfloor> :: rat) < of_int (\<lfloor>x + 1 / 2\<rfloor> + 2)" by simp
  moreover have "(of_int \<lfloor>x + 1 / 2\<rfloor> :: rat) < of_int \<lfloor>y + 1 / 2\<rfloor> + 2"
    using a fy fx by linarith
  then have "(of_int \<lfloor>x + 1 / 2\<rfloor> :: rat) < of_int (\<lfloor>y + 1 / 2\<rfloor> + 2)" by simp
  ultimately have "\<lfloor>y + 1 / 2\<rfloor> < \<lfloor>x + 1 / 2\<rfloor> + 2" "\<lfloor>x + 1 / 2\<rfloor> < \<lfloor>y + 1 / 2\<rfloor> + 2"
    by (simp_all only: of_int_less_iff)
  then show ?thesis unfolding jsRound_def by simp
qed

lemma clamp_near:
  "\<bar>a - b\<bar> \<le> 1 \<Longrightarrow> \<bar>max 0 (min 100 a) - max (0::int) (min 100 b)\<bar> \<le> 1"
  by linarith

text \<open>
  The double that the code rounds is within \<open>2^-39\<close> of the exact value, unless both
  are below \<open>-1/2\<close>.
\<close>

lemma doubleScore_close:
  assumes "0 < totalChecksOf rs"
  defines "x \<equiv> 100 * of_nat (totalPassedOf rs) / (of_nat (totalChecksOf rs) :: rat)
                 - of_nat (penaltyOf rs)"
  shows "(doubleScore rs \<le> - 1 \<and> x < - 1 / 2) \<or> \<bar>doubleScore rs - x\<bar> \<le> 1 / 2 ^ 39"
proof -
  define v where "v = 100 * of_nat (totalPassedOf rs) / (of_nat (totalChecksOf rs) :: rat)"
  define b where "b = fl (fl (of_nat (totalPassedOf rs) / of_nat (totalChecksOf rs)) * 100)"
  define W :: rat where "W = of_nat (penaltyOf rs)"
  note B = base_close [OF assms(1), folded v_def b_def]
  have B1: "b - v \<le> 1 / 2 ^ 40" "- (b - v) \<le> 1 / 2 ^ 40" using B(1) by (simp_all only: abs_le_iff)
  have ds: "doubleScore rs = fl (b - W)" by (simp add: doubleScore_def b_def W_def)
  have x: "x = v - W" by (simp add: x_def v_def W_def)
  have W0: "0 \<le> W" by (simp add: W_def)
  show ?thesis
  proof (cases "b - W < - 1")
    case True
    then have "fl (b - W) \<le> fl (- 1)" by (intro fl_mono) simp
    then have "doubleScore rs \<le> - 1" by (simp only: ds fl_minus_one)
    moreover from True B1(2) have "x < - 1 / 2" unfolding x by simp
    ultimately show ?thesis by simp
  next
    case False
    with B(3) W0 have "\<bar>b - W\<bar> < 128" by simp
    from fl_err_small [OF this]
    have e: "fl (b - W) - (b - W) \<le> 1 / 2 ^ 47" "- (fl (b - W) - (b - W)) \<le> 1 / 2 ^ 47"
      by (simp_all only: abs_le_iff)
    have "doubleScore rs - x \<le> 1 / 2 ^ 39" "- (doubleScore rs - x) \<le> 1 / 2 ^ 39"
      unfolding ds x using e B1 by simp_all
    then have "\<bar>doubleScore rs - x\<bar> \<le> 1 / 2 ^ 39" by (simp only: abs_le_iff)
    then show ?thesis by simp
  qed
qed

lemma computeScore_near_spec: "\<bar>computeScore rs - specScore rs\<bar> \<le> 1"
proof (cases "totalChecksOf rs = 0")
  case True
  then show ?thesis by (simp add: computeScore_closed specScore_def)
next
  case False
  then have T: "0 < totalChecksOf rs" by simp
  let ?x = "100 * of_nat (totalPassedOf rs) / (of_nat (totalChecksOf rs) :: rat) - of_nat (penaltyOf rs)"
  have C: "computeScore rs = max 0 (min 100 (jsRound (doubleScore rs)))"
    using False by (simp add: computeScore_closed)
  have S: "specScore rs = max 0 (min 100 (jsRound ?x))"
    using False by (simp add: specScore_def)
  from doubleScore_close [OF T] show ?thesis
  proof
    assume a: "doubleScore rs \<le> - 1 \<and> ?x < - 1 / 2"
    then have "jsRound (doubleScore rs) \<le> jsRound (- 1)" by (intro jsRound_mono) simp
    moreover have "jsRound (- 1) \<le> 0" unfolding jsRound_def by (simp add: floor_le_iff)
    moreover from a have "jsRound ?x \<le> jsRound (- 1 / 2)" by (intro jsRound_mono) simp
    moreover have "jsRound (- 1 / 2) \<le> 0" unfolding jsRound_def by simp
    ultimately show ?thesis unfolding C S by simp
  next
    assume "\<bar>doubleScore rs - ?x\<bar> \<le> 1 / 2 ^ 39"
    then have "\<bar>doubleScore rs - ?x\<bar> < 1" by simp
    from clamp_near [OF jsRound_near [OF this]] show ?thesis unfolding C S .
  qed
qed

text \<open>
  Away from a tie, and with fewer than \<open>2^38\<close> checks, the rounding of the doubles does
  not show: the code returns the score of the exact formula. A tie is a value
  \<open>100 P / T - W\<close> that is an integer plus one half, that is, \<open>2 T\<close> divides
  \<open>200 P + T\<close>.
\<close>

lemma computeScore_eq_spec:
  assumes T: "totalChecksOf rs < 2 ^ 38"
    and tie: "\<not> 2 * totalChecksOf rs dvd 200 * totalPassedOf rs + totalChecksOf rs"
  shows "computeScore rs = specScore rs"
proof (cases "totalChecksOf rs = 0")
  case True
  then show ?thesis by (simp add: computeScore_closed specScore_def)
next
  case False
  then have Tpos: "0 < totalChecksOf rs" by simp
  define t :: int where "t = int (totalChecksOf rs)"
  define p :: int where "p = int (totalPassedOf rs)"
  define w :: int where "w = int (penaltyOf rs)"
  have tpos: "0 < t" and tlt: "t < 2 ^ 38" using Tpos T by (simp_all add: t_def)
  let ?x = "100 * of_nat (totalPassedOf rs) / (of_nat (totalChecksOf rs) :: rat) - of_nat (penaltyOf rs)"
  define N :: int where "N = 200 * p + t - 2 * t * w"
  have z: "?x + 1 / 2 = of_int N / of_int (2 * t)"
    using tpos by (simp add: N_def t_def p_def w_def field_simps)
  have ndvd: "\<not> 2 * t dvd N"
  proof
    assume "2 * t dvd N"
    then have "2 * t dvd N + (2 * t) * w" by simp
    then have "2 * t dvd 200 * p + t" by (simp add: N_def algebra_simps)
    then have "int (2 * totalChecksOf rs) dvd int (200 * totalPassedOf rs + totalChecksOf rs)"
      by (simp add: t_def p_def)
    then show False using tie by (simp only: int_dvd_int_iff)
  qed
  define m where "m = N div (2 * t)"
  define r where "r = N mod (2 * t)"
  have N: "N = m * (2 * t) + r" by (simp only: m_def r_def div_mult_mod_eq)
  have r: "1 \<le> r" "r \<le> 2 * t - 1"
  proof -
    have "0 \<le> r" "r < 2 * t" using tpos by (simp_all add: r_def)
    moreover have "r \<noteq> 0" using ndvd by (simp add: r_def dvd_eq_mod_eq_0)
    ultimately show "1 \<le> r" "r \<le> 2 * t - 1" by simp_all
  qed
  have zz: "?x + 1 / 2 = of_int m + of_int r / of_int (2 * t)"
    unfolding z N using tpos by (simp add: field_simps)
  have small: "(1 :: rat) / 2 ^ 39 < 1 / of_int (2 * t)"
  proof -
    have "(of_int (2 * t) :: rat) < of_int (2 ^ 39)" using tlt by (simp only: of_int_less_iff) simp
    then show ?thesis using tpos by (simp add: field_simps)
  qed
  have lo: "of_int m + 1 / of_int (2 * t) \<le> ?x + 1 / 2"
  proof -
    have "(1 :: rat) / of_int (2 * t) \<le> of_int r / of_int (2 * t)"
      using r(1) tpos by (intro divide_right_mono) simp_all
    then show ?thesis unfolding zz by simp
  qed
  have hi: "?x + 1 / 2 \<le> of_int m + 1 - 1 / of_int (2 * t)"
  proof -
    have "(of_int r :: rat) / of_int (2 * t) \<le> of_int (2 * t - 1) / of_int (2 * t)"
      using r(2) tpos by (intro divide_right_mono) simp_all
    also have "\<dots> = 1 - 1 / of_int (2 * t)" using tpos by (simp add: field_simps)
    finally show ?thesis unfolding zz by simp
  qed
  have inv: "(0 :: rat) < 1 / of_int (2 * t)" using tpos by simp
  have S: "jsRound ?x = m"
    unfolding jsRound_def
  proof (rule floor_unique)
    show "of_int m \<le> ?x + 1 / 2" using lo inv by linarith
    show "?x + 1 / 2 < of_int m + 1" using hi inv by linarith
  qed
  have C: "computeScore rs = max 0 (min 100 (jsRound (doubleScore rs)))"
    using False by (simp add: computeScore_closed)
  have Sp: "specScore rs = max 0 (min 100 m)"
    using False by (simp add: specScore_def S)
  from doubleScore_close [OF Tpos] show ?thesis
  proof
    assume a: "doubleScore rs \<le> - 1 \<and> ?x < - 1 / 2"
    then have "jsRound (doubleScore rs) \<le> jsRound (- 1)" by (intro jsRound_mono) simp
    moreover have "jsRound (- 1) \<le> 0" unfolding jsRound_def by (simp add: floor_le_iff)
    moreover from a have "jsRound ?x \<le> jsRound (- 1 / 2)" by (intro jsRound_mono) simp
    moreover have "jsRound (- 1 / 2) \<le> 0" unfolding jsRound_def by simp
    ultimately show ?thesis unfolding C Sp S [symmetric] by simp
  next
    assume "\<bar>doubleScore rs - ?x\<bar> \<le> 1 / 2 ^ 39"
    then have d: "doubleScore rs - ?x \<le> 1 / 2 ^ 39" "- (doubleScore rs - ?x) \<le> 1 / 2 ^ 39"
      by (simp_all only: abs_le_iff)
    have "jsRound (doubleScore rs) = m"
      unfolding jsRound_def
    proof (rule floor_unique)
      show "of_int m \<le> doubleScore rs + 1 / 2" using lo d(2) small by linarith
      show "doubleScore rs + 1 / 2 < of_int m + 1" using hi d(1) small by linarith
    qed
    then show ?thesis unfolding C Sp by simp
  qed
qed

section \<open>Properties of the overall score\<close>

text \<open>
  The mean of at most \<open>2^46\<close> scores between 0 and 100: the rounding of the division to
  a double does not change the integer that \<open>Math.round\<close> returns.
\<close>

lemma mean_round:
  assumes n: "0 < n" "n < 2 ^ 46" and s: "0 \<le> s" "s \<le> 100 * int n"
  shows "jsRound (fl (of_int s / of_nat n)) = jsRound (of_int s / of_nat n)"
proof -
  define x :: rat where "x = of_int s / of_nat n"
  define m where "m = jsRound x"
  have npos: "(0 :: rat) < of_nat n" using n(1) by simp
  have x0: "0 \<le> x" using s(1) npos by (simp add: x_def)
  have "(of_int s :: rat) \<le> of_int (100 * int n)" using s(2) by (simp only: of_int_le_iff)
  then have x100: "x \<le> 100" using npos by (simp add: x_def field_simps)
  have mlo: "of_int m \<le> x + 1 / 2" unfolding m_def by (rule jsRound_le)
  have mhi: "x + 1 / 2 < of_int m + 1" unfolding m_def jsRound_def by linarith
  have m0: "0 \<le> m" unfolding m_def using jsRound_mono [of 0 x] x0 by (simp add: jsRound_zero)
  have m100: "m \<le> 100"
  proof -
    have "(of_int m :: rat) < of_int 101" using mlo x100 by simp
    then have "m < 101" by (simp only: of_int_less_iff)
    then show ?thesis by simp
  qed
  \<comment> \<open>the half-integer below is a double\<close>
  define h :: rat where "h = of_int m - 1 / 2"
  have h: "h = of_int (2 * m - 1) * 2 powi (- 1)" by (simp add: h_def field_simps)
  have hne: "h \<noteq> 0"
  proof
    assume "h = 0"
    then have "(of_int (2 * m) :: rat) = of_int 1" by (simp add: h_def field_simps)
    then have "2 * m = 1" by (simp only: of_int_eq_iff)
    then show False by presburger
  qed
  have habs: "\<bar>h\<bar> < 2 powi (51 + 1)" using m0 m100 by (simp add: h_def abs_less_iff)
  have "ulpExp h \<le> 51 - 52" by (rule ulpExp_le [OF hne habs]) simp
  then have "ulpExp h \<le> - 1" by simp
  from fl_exact [OF h this] have flh: "fl h = h" .
  have "h \<le> x" using mlo by (simp add: h_def)
  from fl_mono [OF this] have "h \<le> fl x" by (simp only: flh)
  then have lower: "of_int m \<le> fl x + 1 / 2" by (simp add: h_def)
  \<comment> \<open>the mean is at least \<open>1 / (2 n)\<close> below the next half-integer\<close>
  have "(of_int (2 * s + int n) :: rat) < of_int ((m + 1) * (2 * int n))"
    using mhi npos by (simp add: x_def field_simps)
  then have "2 * s + int n < (m + 1) * (2 * int n)" by (simp only: of_int_less_iff)
  then have "2 * s + int n + 1 \<le> (m + 1) * (2 * int n)" by simp
  then have "(of_int (2 * s + int n + 1) :: rat) \<le> of_int ((m + 1) * (2 * int n))"
    by (simp only: of_int_le_iff)
  then have gap: "x + 1 / 2 + 1 / (2 * of_nat n) \<le> of_int m + 1"
    using npos by (simp add: x_def field_simps)
  have "(of_nat (2 * n) :: rat) < of_nat (2 ^ 47)" using n(2) by (simp only: of_nat_less_iff) simp
  then have small: "(1 :: rat) / 2 ^ 47 < 1 / (2 * of_nat n)" using npos by (simp add: field_simps)
  have "\<bar>x\<bar> < 128" using x0 x100 by simp
  from fl_err_small [OF this] have "fl x - x \<le> 1 / 2 ^ 47" by (simp only: abs_le_iff)
  with gap small have upper: "fl x + 1 / 2 < of_int m + 1" by linarith
  have "jsRound (fl x) = m" unfolding jsRound_def using lower upper by (rule floor_unique)
  then show ?thesis by (simp add: m_def x_def)
qed

lemma fold_plus_sum_list:
  "fold (\<lambda>r acc. acc + f r) xs (a :: 'a :: comm_monoid_add) = a + sum_list (map f xs)"
  by (induction xs arbitrary: a) (simp_all add: add.assoc)

lemma sum_list_bounds:
  assumes "\<And>x. x \<in> set xs \<Longrightarrow> 0 \<le> f x \<and> f x \<le> (100 :: int)"
  shows "0 \<le> sum_list (map f xs)" "sum_list (map f xs) \<le> 100 * int (length xs)"
  using assms by (induction xs) (fastforce simp: algebra_simps)+

section \<open>The score against its specification\<close>

lemma floor_numeral_divide:
  "\<lfloor>(numeral a :: rat) / numeral b\<rfloor> = numeral a div numeral b"
  using floor_divide_of_int_eq [of "numeral a" "numeral b", where ?'a = rat] by simp

lemma countSeverity_replicate:
  "countSeverity s (replicate n i) = (if severity i = s then n else 0)"
  by (induction n) simp_all

lemma fl_23_40: "fl (23 / 40) = 2589569785738035 / 4503599627370496"
  by (subst fl_eval [where e = "- 1"]) (simp_all add: rne_numeral_divide)

lemma fl_23_40_100:
  "fl (64739244643450875 / 1125899906842624) = 8092405580431359 / 140737488355328"
  \<comment> \<open>the argument is \<open>2589569785738035 / 4503599627370496 * 100\<close>\<close>
  by (subst fl_eval [where e = 5]) (simp_all add: rne_numeral_divide)

lemma fl_23_40_100_34:
  "fl (3307330976350207 / 140737488355328) = 3307330976350207 / 140737488355328"
  \<comment> \<open>the argument is \<open>8092405580431359 / 140737488355328 - 34\<close>\<close>
  by (subst fl_eval [where e = 4]) (simp_all add: rne_numeral_divide)

text \<open>
  C1, as stated, is false: the code does not compute \<open>100 \<times> totalPassed / totalChecks\<close>
  exactly, it computes \<open>(totalPassed / totalChecks) * 100\<close> in doubles. For one result
  with 23 checks passed and 17 failed, each failure an issue of severity info (penalty 34),
  the quotient \<open>23/40\<close> is rounded down, its product with 100 is the double
  \<open>57.49999999999999\<close>, and the code returns \<open>round(23.49999999999999) = 23\<close>, where
  the formula of the claim gives \<open>round(57.5 - 34) = 24\<close>.
\<close>

theorem computeScore_differs_from_spec:
  "computeScore [\<lparr>checker = ''structure'', issues = replicate 17 infoIssue,
                   passed = 23, failed = 17\<rparr>] = 23 \<and>
   specScore [\<lparr>checker = ''structure'', issues = replicate 17 infoIssue,
                passed = 23, failed = 17\<rparr>] = 24"
proof
  show "computeScore [\<lparr>checker = ''structure'', issues = replicate 17 infoIssue,
                         passed = 23, failed = 17\<rparr>] = 23"
    by (simp add: computeScore_closed doubleScore_def totalChecksOf_def totalPassedOf_def
        penaltyOf_def countSeverity_replicate infoIssue_def fl_23_40 fl_23_40_100
        fl_23_40_100_34 jsRound_def floor_numeral_divide)
  show "specScore [\<lparr>checker = ''structure'', issues = replicate 17 infoIssue,
                      passed = 23, failed = 17\<rparr>] = 24"
    by (simp add: specScore_def totalChecksOf_def totalPassedOf_def
        penaltyOf_def countSeverity_replicate infoIssue_def jsRound_def floor_numeral_divide)
qed

text \<open>
  C1, amended. \<open>computeScore\<close> returns 100 when the sum of \<open>passed + failed\<close> is
  zero; otherwise it returns \<open>clamp(round(d), 0, 100)\<close>, where \<open>d\<close> is the value in
  double arithmetic of \<open>(totalPassed / totalChecks) * 100 - penalty\<close> and the penalty is
  15 per error, 7 per warning and 2 per info. The result is an integer between 0 and 100.
  It differs by at most 1 from the score of the exact formula, and equals it when there
  are fewer than \<open>2^38\<close> checks and \<open>100 \<times> totalPassed / totalChecks\<close> is not an
  integer plus one half. The grade is A from 90, B from 80, C from 70, D from 50, else F.
\<close>

theorem computeScore_formula:
  "computeScore rs =
     (if totalChecksOf rs = 0 then 100 else max 0 (min 100 (jsRound (doubleScore rs)))) \<and>
   0 \<le> computeScore rs \<and> computeScore rs \<le> 100 \<and>
   \<bar>computeScore rs - specScore rs\<bar> \<le> 1 \<and>
   (totalChecksOf rs < 2 ^ 38 \<and>
    \<not> 2 * totalChecksOf rs dvd 200 * totalPassedOf rs + totalChecksOf rs
      \<longrightarrow> computeScore rs = specScore rs) \<and>
   (scoreGrade (computeScore rs) = ''A'' \<longleftrightarrow> 90 \<le> computeScore rs) \<and>
   (scoreGrade (computeScore rs) = ''B'' \<longleftrightarrow> 80 \<le> computeScore rs \<and> computeScore rs < 90) \<and>
   (scoreGrade (computeScore rs) = ''C'' \<longleftrightarrow> 70 \<le> computeScore rs \<and> computeScore rs < 80) \<and>
   (scoreGrade (computeScore rs) = ''D'' \<longleftrightarrow> 50 \<le> computeScore rs \<and> computeScore rs < 70) \<and>
   (scoreGrade (computeScore rs) = ''F'' \<longleftrightarrow> computeScore rs < 50)"
  using computeScore_closed [of rs] computeScore_range [of rs] computeScore_near_spec [of rs]
    computeScore_eq_spec [of rs] scoreGrade_bands [of "computeScore rs"]
  by blast

text \<open>
  Witness: two checks passed and two failed, with one error and one info. The exact
  value \<open>50 - 17 = 33\<close> is no tie, the score is 33 and the grade is F.
\<close>

theorem computeScore_formula_witness:
  "computeScore [\<lparr>checker = ''filesystem'', issues = [errorIssue, infoIssue],
                   passed = 2, failed = 2\<rparr>] = 33 \<and>
   scoreGrade (computeScore
     [\<lparr>checker = ''filesystem'', issues = [errorIssue, infoIssue],
       passed = 2, failed = 2\<rparr>]) = ''F''"
proof -
  let ?rs = "[\<lparr>checker = ''filesystem'', issues = [errorIssue, infoIssue],
               passed = 2, failed = 2\<rparr>]"
  have T: "totalChecksOf ?rs = 4" "totalPassedOf ?rs = 2" "penaltyOf ?rs = 17"
    by (simp_all add: totalChecksOf_def totalPassedOf_def penaltyOf_def errorIssue_def
        infoIssue_def)
  have S: "specScore ?rs = 33" by (simp add: specScore_def T jsRound_def floor_numeral_divide)
  have "computeScore ?rs = specScore ?rs"
    using computeScore_formula [of ?rs] by (simp add: T)
  with S have C: "computeScore ?rs = 33" by simp
  moreover have "scoreGrade (computeScore ?rs) = ''F''"
    using computeScore_formula [of ?rs] by (simp add: C)
  ultimately show ?thesis by simp
qed

text \<open>
  C4, as stated, is false in its second half: the score is rounded to an integer and can
  exceed the pass rate. For one result with 4 checks passed, 2 failed and no issue the
  pass rate is \<open>66.67\<close> and the score is 67.
\<close>

theorem computeScore_exceeds_pass_rate:
  "\<not> of_int (computeScore [\<lparr>checker = ''c'', issues = [], passed = 4, failed = 2\<rparr>])
       \<le> (100 * 4 / 6 :: rat)"
proof -
  let ?rs = "[\<lparr>checker = ''c'', issues = [], passed = 4, failed = 2\<rparr>]"
  have T: "totalChecksOf ?rs = 6" "totalPassedOf ?rs = 4" "penaltyOf ?rs = 0"
    by (simp_all add: totalChecksOf_def totalPassedOf_def penaltyOf_def)
  have "specScore ?rs = 67" by (simp add: specScore_def T jsRound_def floor_numeral_divide)
  moreover have "computeScore ?rs = specScore ?rs"
    by (rule computeScore_eq_spec) (simp_all add: T)
  ultimately show ?thesis by simp
qed

text \<open>
  C4, amended. Appending one issue of any severity to any result, the counters
  unchanged, never increases the score. With at least one check, the score is below
  the raw pass rate \<open>100 \<times> totalPassed / totalChecks\<close> plus 1; it never exceeds the
  raw pass rate when no result counts a failed check without an issue
  (\<open>failed \<le> issues.length\<close> in every result).
\<close>

theorem computeScore_monotone:
  "(k < length rs \<longrightarrow> computeScore (addIssue i k rs) \<le> computeScore rs) \<and>
   (0 < totalChecksOf rs \<longrightarrow>
      of_int (computeScore rs)
        < 100 * of_nat (totalPassedOf rs) / (of_nat (totalChecksOf rs) :: rat) + 1) \<and>
   (0 < totalChecksOf rs \<and> (\<forall>r \<in> set rs. failed r \<le> length (issues r)) \<longrightarrow>
      of_int (computeScore rs)
        \<le> 100 * of_nat (totalPassedOf rs) / (of_nat (totalChecksOf rs) :: rat))"
proof -
  define v :: rat where "v = 100 * of_nat (totalPassedOf rs) / of_nat (totalChecksOf rs)"
  define W :: rat where "W = of_nat (penaltyOf rs)"
  define C :: rat where "C = of_int (computeScore rs)"
  have v0: "0 \<le> v" by (simp add: v_def)
  have W0: "0 \<le> W" by (simp add: W_def)
  have up: "C = 0 \<or> C < v + 1 - W" if "0 < totalChecksOf rs"
    using computeScore_upper [OF that] by (auto simp: v_def W_def C_def)
  have a: "computeScore (addIssue i k rs) \<le> computeScore rs" if "k < length rs"
    using that by (rule computeScore_addIssue)
  have b: "C < v + 1" if "0 < totalChecksOf rs"
    using up [OF that] v0 W0 by linarith
  have c: "C \<le> v" if T: "0 < totalChecksOf rs" and f: "\<forall>r \<in> set rs. failed r \<le> length (issues r)"
  proof (cases "concat (map issues rs) = []")
    case True
    with f have "\<forall>r \<in> set rs. failed r = 0" by auto
    then have "totalPassedOf rs = totalChecksOf rs"
      by (induction rs) (simp_all add: totalPassedOf_def totalChecksOf_def)
    with T have "v = 100" by (simp add: v_def)
    moreover have "C \<le> 100" unfolding C_def using computeScore_range(2) [of rs] by simp
    ultimately show ?thesis by simp
  next
    case False
    from penaltyOf_pos [OF this] have "(of_nat 2 :: rat) \<le> of_nat (penaltyOf rs)"
      by (simp only: of_nat_le_iff)
    then have "2 \<le> W" by (simp add: W_def)
    with up [OF T] v0 show ?thesis by linarith
  qed
  from a b c show ?thesis unfolding v_def C_def by blast
qed

text \<open>
  Witness: 8 checks passed and 2 failed, with two errors. One more error does not raise
  the score, and the score is at most the pass rate, 80.
\<close>

theorem computeScore_monotone_witness:
  "computeScore (addIssue errorIssue 0
     [\<lparr>checker = ''filesystem'', issues = [errorIssue, errorIssue], passed = 8, failed = 2\<rparr>])
     \<le> computeScore
         [\<lparr>checker = ''filesystem'', issues = [errorIssue, errorIssue], passed = 8, failed = 2\<rparr>] \<and>
   of_int (computeScore
     [\<lparr>checker = ''filesystem'', issues = [errorIssue, errorIssue], passed = 8, failed = 2\<rparr>])
     \<le> (80 :: rat)"
proof -
  let ?rs = "[\<lparr>checker = ''filesystem'', issues = [errorIssue, errorIssue],
               passed = 8, failed = 2\<rparr>]"
  have T: "totalChecksOf ?rs = 10" "totalPassedOf ?rs = 8"
    by (simp_all add: totalChecksOf_def totalPassedOf_def)
  have "0 < length ?rs" by simp
  moreover have "0 < totalChecksOf ?rs \<and> (\<forall>r \<in> set ?rs. failed r \<le> length (issues r))"
    by (simp add: T)
  ultimately show ?thesis
    using computeScore_monotone [of 0 ?rs errorIssue] by (simp only: T) simp
qed

section \<open>The overall score against its specification\<close>

lemma lintReport_sel [simp]:
  "score (lintReport relativePath now rs) = computeScore rs"
  "errors (lintReport relativePath now rs) = countSeverity Error (concat (map issues rs))"
  "warnings (lintReport relativePath now rs) = countSeverity Warn (concat (map issues rs))"
  "infos (lintReport relativePath now rs) = countSeverity Info (concat (map issues rs))"
  by (simp_all add: lintReport_def Let_def)

lemma lintEach_score_range:
  "r \<in> set (lintEach docs) \<Longrightarrow> 0 \<le> score r \<and> score r \<le> 100"
  by (auto simp: lintEach_def computeScore_range)

lemma lintEach_length [simp]: "length (lintEach docs) = length docs"
  by (simp add: lintEach_def)

lemma overallScore_mean:
  assumes "docs \<noteq> []" and "length docs < 2 ^ 46"
  shows "jsRound (fl (of_int (fold (\<lambda>r sum. sum + score r) (lintEach docs) 0)
                        / of_nat (length (lintEach docs))))
         = jsRound (of_int (sum_list (map score (lintEach docs))) / of_nat (length docs))"
proof -
  have b: "0 \<le> sum_list (map score (lintEach docs))"
          "sum_list (map score (lintEach docs)) \<le> 100 * int (length (lintEach docs))"
    by (rule sum_list_bounds, erule lintEach_score_range)+
  from assms(1) have n: "0 < length docs" by simp
  show ?thesis
    using mean_round [OF n assms(2), of "sum_list (map score (lintEach docs))"] b
    by (simp add: fold_plus_sum_list)
qed

text \<open>
  C10. When at least one context file is found (there are at most five candidates; the
  bound below is far beyond that), \<open>lintAll\<close> returns a report whose overall score is
  \<open>Math.round\<close> of the exact arithmetic mean of the scores of the per-file reports: the
  floating-point quotient rounds to the same integer. The overall score is the same
  whatever the result of the cross-check is; the issues of the cross-check are counted
  only in the totals of errors, warnings and infos, each of which is the sum over the
  per-file reports plus the number of cross-check issues of that severity.
\<close>

theorem lintAll_overallScore:
  assumes "docs \<noteq> []" and "length docs < 2 ^ 46"
  shows "\<exists>m. lintAllReport (lintEach docs) cross = Inr m \<and>
           overallScore m
             = jsRound (of_int (sum_list (map score (lintEach docs))) / of_nat (length docs)) \<and>
           totalErrors m
             = sum_list (map errors (lintEach docs)) + countSeverity Error (issues cross) \<and>
           totalWarnings m
             = sum_list (map warnings (lintEach docs)) + countSeverity Warn (issues cross) \<and>
           totalInfos m
             = sum_list (map infos (lintEach docs)) + countSeverity Info (issues cross) \<and>
           (\<forall>cross'. \<exists>m'. lintAllReport (lintEach docs) cross' = Inr m' \<and>
                            overallScore m' = overallScore m)"
proof -
  from assms(1) have ne: "lintEach docs \<noteq> []" by (simp add: lintEach_def)
  have R: "lintAllReport (lintEach docs) c =
      Inr \<lparr>files = map file' (lintEach docs), reports = lintEach docs, crossCheck = c,
           overallScore =
             jsRound (of_int (sum_list (map score (lintEach docs))) / of_nat (length docs)),
           totalErrors = sum_list (map errors (lintEach docs)) + countSeverity Error (issues c),
           totalWarnings = sum_list (map warnings (lintEach docs)) + countSeverity Warn (issues c),
           totalInfos = sum_list (map infos (lintEach docs)) + countSeverity Info (issues c)\<rparr>"
    for c
    unfolding lintAllReport_def Let_def overallScore_mean [OF assms]
    using ne by (simp add: fold_plus_sum_list)
  show ?thesis by (simp add: R)
qed

text \<open>
  Witness: two files, the first with all of its 2 checks passed (score 100), the second
  with 2 of 4 checks passed, one error and one info (score 33), and a cross-check that
  raises one error. The overall score is \<open>Math.round(133 / 2) = 67\<close>, and the totals are
  2 errors, 0 warnings and 1 info.
\<close>

theorem lintAll_overallScore_witness:
  "map_sum id (\<lambda>m. (overallScore m, totalErrors m, totalWarnings m, totalInfos m))
     (lintAllReport
        (lintEach
           [(''AGENTS.md'', ''2026-01-01'',
               [\<lparr>checker = ''structure'', issues = [], passed = 2, failed = 0\<rparr>]),
            (''CLAUDE.md'', ''2026-01-01'',
               [\<lparr>checker = ''filesystem'', issues = [errorIssue, infoIssue],
                  passed = 2, failed = 2\<rparr>])])
        \<lparr>checker = ''cross-consistency'', issues = [errorIssue], passed = 0, failed = 1\<rparr>)
   = Inr (67, 2, 0, 1)"
proof -
  let ?a = "[\<lparr>checker = ''structure'', issues = [], passed = 2, failed = 0\<rparr>]"
  let ?b = "[\<lparr>checker = ''filesystem'', issues = [errorIssue, infoIssue],
              passed = 2, failed = 2\<rparr>]"
  let ?docs = "[(''AGENTS.md'', ''2026-01-01'', ?a), (''CLAUDE.md'', ''2026-01-01'', ?b)]"
  let ?cross = "\<lparr>checker = ''cross-consistency'', issues = [errorIssue], passed = 0,
                  failed = 1\<rparr>"
  have Ta: "totalChecksOf ?a = 2" "totalPassedOf ?a = 2" "penaltyOf ?a = 0"
    by (simp_all add: totalChecksOf_def totalPassedOf_def penaltyOf_def)
  have Tb: "totalChecksOf ?b = 4" "totalPassedOf ?b = 2" "penaltyOf ?b = 17"
    by (simp_all add: totalChecksOf_def totalPassedOf_def penaltyOf_def errorIssue_def
        infoIssue_def)
  have "computeScore ?a = specScore ?a"
    by (rule computeScore_eq_spec) (simp_all add: Ta)
  also have "\<dots> = 100" by (simp add: specScore_def Ta jsRound_def floor_numeral_divide)
  finally have a: "computeScore ?a = 100" .
  have "computeScore ?b = specScore ?b"
    by (rule computeScore_eq_spec) (simp_all add: Tb)
  also have "\<dots> = 33" by (simp add: specScore_def Tb jsRound_def floor_numeral_divide)
  finally have b: "computeScore ?b = 33" .
  have s: "map score (lintEach ?docs) = [100, 33]"
    by (simp add: lintEach_def a b)
  have t: "map errors (lintEach ?docs) = [0, 1]"
          "map warnings (lintEach ?docs) = [0, 0]"
          "map infos (lintEach ?docs) = [0, 1]"
    by (simp_all add: lintEach_def errorIssue_def infoIssue_def)
  have "?docs \<noteq> []" "length ?docs < 2 ^ 46" by simp_all
  from lintAll_overallScore [OF this, of ?cross]
  obtain m where m: "lintAllReport (lintEach ?docs) ?cross = Inr m"
    "overallScore m = jsRound (of_int (sum_list (map score (lintEach ?docs))) / of_nat (length ?docs))"
    "totalErrors m = sum_list (map errors (lintEach ?docs)) + countSeverity Error (issues ?cross)"
    "totalWarnings m = sum_list (map warnings (lintEach ?docs)) + countSeverity Warn (issues ?cross)"
    "totalInfos m = sum_list (map infos (lintEach ?docs)) + countSeverity Info (issues ?cross)"
    by blast
  have "overallScore m = 67"
    unfolding m(2) s by (simp add: jsRound_def floor_numeral_divide)
  moreover have "totalErrors m = 2" "totalWarnings m = 0" "totalInfos m = 1"
    unfolding m(3,4,5) t by (simp_all add: errorIssue_def)
  ultimately show ?thesis unfolding m(1) by simp
qed

section \<open>The checkers against their specification\<close>

lemma fold_checkDeprecated:
  "fold (checkDeprecated parsed sev allDeps) table iss =
     iss @ map (\<lambda>e. deprecatedIssue parsed sev (fst e) (snd e))
             (filter (\<lambda>e. fst e \<in> set allDeps) table)"
  by (induction table arbitrary: iss) (simp_all add: checkDeprecated_def)

lemma fold_checkMentioned:
  "fold (checkMentioned parsed ignored allDeps) deps (iss, p, f) = (iss', p', f') \<Longrightarrow>
     (\<forall>i \<in> set iss. rule i = ''no-missing-dependency'') \<Longrightarrow> f = length iss \<Longrightarrow>
     (\<forall>i \<in> set iss'. rule i = ''no-missing-dependency'') \<and> f' = length iss'"
proof (induction deps arbitrary: iss p f)
  case Nil
  then show ?case by auto
next
  case (Cons dep deps)
  obtain iss1 p1 f1 where step: "checkMentioned parsed ignored allDeps dep (iss, p, f) = (iss1, p1, f1)"
    by (cases "checkMentioned parsed ignored allDeps dep (iss, p, f)") auto
  with Cons.prems(1) have rec: "fold (checkMentioned parsed ignored allDeps) deps (iss1, p1, f1) = (iss', p', f')"
    by simp
  have "(\<forall>i \<in> set iss1. rule i = ''no-missing-dependency'') \<and> f1 = length iss1"
    using step Cons.prems(2,3)
    by (auto simp: checkMentioned_def Let_def missingDependencyIssue_def split: if_splits)
  with Cons.IH [OF rec] show ?case by simp
qed

lemma checkDependencies_issues:
  obtains iss where
    "issues (checkDependencies parsed (Some pkg) config) =
       iss @ map (\<lambda>e. deprecatedIssue parsed (staleDependencySeverity config) (fst e) (snd e))
               (filter (\<lambda>e. fst e \<in> set (allDepsOf pkg)) DEPRECATED_PACKAGES)"
    "\<forall>i \<in> set iss. rule i = ''no-missing-dependency''"
    "failed (checkDependencies parsed (Some pkg) config) = length iss"
proof -
  let ?ign = "case ignorePatterns config of None \<Rightarrow> [] | Some ps \<Rightarrow> ps"
  obtain iss p f where l1:
    "fold (checkMentioned parsed ?ign (allDepsOf pkg)) (mentionedDependencies parsed) ([], 0, 0)
       = (iss, p, f)"
    by (cases "fold (checkMentioned parsed ?ign (allDepsOf pkg)) (mentionedDependencies parsed) ([], 0, 0)")
       auto
  from fold_checkMentioned [OF l1] have inv: "\<forall>i \<in> set iss. rule i = ''no-missing-dependency''" "f = length iss"
    by simp_all
  show ?thesis
    by (rule that [of iss]) (simp_all add: checkDependencies_def Let_def l1 fold_checkDeprecated inv)
qed

lemma deprecated_message_inj:
  "''Package '' @ quote @ a @ quote @ '' is deprecated'' =
   ''Package '' @ quote @ b @ quote @ '' is deprecated'' \<longleftrightarrow> a = b"
  by simp

lemma filter_key_distinct:
  "distinct (map fst table) \<Longrightarrow> map_of table k = Some v \<Longrightarrow>
     filter (\<lambda>e. fst e = k) table = [(k, v)]"
proof (induction table)
  case Nil
  then show ?case by simp
next
  case (Cons e table)
  show ?case
  proof (cases "fst e = k")
    case True
    with Cons.prems have "e = (k, v)" by (cases e) simp
    moreover from True Cons.prems(1) have "\<forall>x \<in> set table. fst x \<noteq> k"
      by (auto simp: image_iff)
    then have "filter (\<lambda>e. fst e = k) table = []" by (simp add: filter_empty_conv)
    ultimately show ?thesis by simp
  next
    case False
    with Cons show ?thesis by (cases e) auto
  qed
qed

lemma DEPRECATED_PACKAGES_distinct: "distinct (map fst DEPRECATED_PACKAGES)"
  by (simp add: DEPRECATED_PACKAGES_def)

text \<open>
  C7. When the root manifest declares a dependency \<open>d\<close> that the table of deprecated
  packages lists with the replacement \<open>r\<close>, the issues of the dependency checker contain
  exactly one issue of rule \<open>deprecated-dependency\<close> about \<open>d\<close>; its suggestion is
  \<open>Consider migrating to: r\<close>; this holds for every parsed document, whatever it
  mentions; the severity is the configured one, which is info under the default
  configuration.
\<close>

theorem checkDependencies_deprecated_once:
  assumes "map_of DEPRECATED_PACKAGES d = Some r" and "d \<in> set (allDepsOf pkg)"
  shows "filter (\<lambda>i. rule i = ''deprecated-dependency'' \<and>
                     message i = ''Package '' @ quote @ d @ quote @ '' is deprecated'')
           (issues (checkDependencies parsed (Some pkg) config))
         = [deprecatedIssue parsed (staleDependencySeverity config) d r] \<and>
         suggestion (deprecatedIssue parsed (staleDependencySeverity config) d r)
           = Some (''Consider migrating to: '' @ r) \<and>
         severity (deprecatedIssue parsed (staleDependencySeverity config) d r)
           = staleDependencySeverity config \<and>
         staleDependencySeverity defaultConfig = Info"
proof -
  let ?sev = "staleDependencySeverity config"
  let ?P = "\<lambda>i. rule i = ''deprecated-dependency'' \<and>
                 message i = ''Package '' @ quote @ d @ quote @ '' is deprecated''"
  obtain iss where I:
    "issues (checkDependencies parsed (Some pkg) config) =
       iss @ map (\<lambda>e. deprecatedIssue parsed ?sev (fst e) (snd e))
               (filter (\<lambda>e. fst e \<in> set (allDepsOf pkg)) DEPRECATED_PACKAGES)"
    "\<forall>i \<in> set iss. rule i = ''no-missing-dependency''"
    by (rule checkDependencies_issues)
  from I(2) have f1: "filter ?P iss = []" by (auto simp: filter_empty_conv)
  have P: "?P (deprecatedIssue parsed ?sev (fst e) (snd e)) \<longleftrightarrow> fst e = d" for e
    by (simp add: deprecatedIssue_def)
  have "filter ?P (map (\<lambda>e. deprecatedIssue parsed ?sev (fst e) (snd e))
                    (filter (\<lambda>e. fst e \<in> set (allDepsOf pkg)) DEPRECATED_PACKAGES))
        = map (\<lambda>e. deprecatedIssue parsed ?sev (fst e) (snd e))
            (filter (\<lambda>e. fst e \<in> set (allDepsOf pkg) \<and> fst e = d) DEPRECATED_PACKAGES)"
    by (simp only: filter_map o_def P filter_filter)
  also have "filter (\<lambda>e. fst e \<in> set (allDepsOf pkg) \<and> fst e = d) DEPRECATED_PACKAGES
        = filter (\<lambda>e. fst e = d) DEPRECATED_PACKAGES"
    using assms(2) by (intro filter_cong) auto
  also have "\<dots> = [(d, r)]"
    by (rule filter_key_distinct [OF DEPRECATED_PACKAGES_distinct assms(1)])
  finally have f2: "filter ?P (map (\<lambda>e. deprecatedIssue parsed ?sev (fst e) (snd e))
                    (filter (\<lambda>e. fst e \<in> set (allDepsOf pkg)) DEPRECATED_PACKAGES))
        = [deprecatedIssue parsed ?sev d r]" by simp
  have "filter ?P (issues (checkDependencies parsed (Some pkg) config))
          = [deprecatedIssue parsed ?sev d r]"
    by (simp only: I(1) filter_append f1 f2 append_Nil)
  then show ?thesis
    by (simp add: deprecatedIssue_def staleDependencySeverity_def defaultConfig_def)
qed

text \<open>
  Witness: the manifest declares \<open>moment\<close> and the document is empty (the case of the
  repository's own test): one issue, suggesting \<open>date-fns or dayjs\<close>, of severity info.
\<close>

theorem checkDependencies_deprecated_once_witness:
  "map (\<lambda>i. (severity i, suggestion i))
     (filter (\<lambda>i. rule i = ''deprecated-dependency'' \<and>
                  message i = ''Package '' @ quote @ ''moment'' @ quote @ '' is deprecated'')
        (issues (checkDependencies emptyDocument (Some momentManifest) defaultConfig)))
   = [(Info, Some ''Consider migrating to: date-fns or dayjs'')]"
proof -
  have 1: "map_of DEPRECATED_PACKAGES ''moment'' = Some ''date-fns or dayjs''"
    by (simp add: DEPRECATED_PACKAGES_def)
  have 2: "''moment'' \<in> set (allDepsOf momentManifest)"
    by (simp add: allDepsOf_def momentManifest_def)
  from checkDependencies_deprecated_once [OF 1 2, of emptyDocument defaultConfig]
  show ?thesis by (simp add: deprecatedIssue_def)
qed

text \<open>
  C8, as stated, is false for the dependency checker: an issue about a deprecated
  package is added without counting a failed check. With the manifest that declares
  \<open>moment\<close> and an empty document, the result has one issue and \<open>failed = 0\<close>.
\<close>

theorem checkDependencies_failed_differs:
  "failed (checkDependencies emptyDocument (Some momentManifest) defaultConfig) = 0 \<and>
   length (issues (checkDependencies emptyDocument (Some momentManifest) defaultConfig)) = 1"
proof -
  obtain iss where I:
    "issues (checkDependencies emptyDocument (Some momentManifest) defaultConfig) =
       iss @ map (\<lambda>e. deprecatedIssue emptyDocument (staleDependencySeverity defaultConfig)
                        (fst e) (snd e))
               (filter (\<lambda>e. fst e \<in> set (allDepsOf momentManifest)) DEPRECATED_PACKAGES)"
    "failed (checkDependencies emptyDocument (Some momentManifest) defaultConfig) = length iss"
    by (rule checkDependencies_issues)
  have f: "failed (checkDependencies emptyDocument (Some momentManifest) defaultConfig) = 0"
    by (simp add: checkDependencies_def emptyDocument_def Let_def)
  with I(2) have "iss = []" by simp
  with I(1) f show ?thesis
    by (simp add: allDepsOf_def momentManifest_def DEPRECATED_PACKAGES_def)
qed

text \<open>
  C8, amended. The results of the structure checker and of the framework checker satisfy
  \<open>failed = issues.length\<close>. The result of the dependency checker does not: its
  \<open>failed\<close> is the number of its issues of rule \<open>no-missing-dependency\<close>, and it has one
  more issue, not counted, for each declared dependency of the table of deprecated
  packages; so \<open>failed \<le> issues.length\<close>, and without a readable manifest both are 0.
\<close>

theorem checkers_failed_count:
  "failed (checkStructure parsed config) = length (issues (checkStructure parsed config)) \<and>
   failed (checkFrameworkStaleness parsed manifest)
     = length (issues (checkFrameworkStaleness parsed manifest)) \<and>
   failed (checkDependencies parsed manifest config)
     = length (filter (\<lambda>i. rule i = ''no-missing-dependency'')
         (issues (checkDependencies parsed manifest config))) \<and>
   length (issues (checkDependencies parsed manifest config))
     = failed (checkDependencies parsed manifest config) +
       (case manifest of
          None \<Rightarrow> 0
        | Some pkg \<Rightarrow> length (filter (\<lambda>e. fst e \<in> set (allDepsOf pkg)) DEPRECATED_PACKAGES))"
proof (intro conjI)
  show "failed (checkStructure parsed config) = length (issues (checkStructure parsed config))"
    by (simp add: checkStructure_def Let_def)
  show "failed (checkFrameworkStaleness parsed manifest)
          = length (issues (checkFrameworkStaleness parsed manifest))"
    by (simp add: checkFrameworkStaleness_def Let_def)
  show "failed (checkDependencies parsed manifest config)
          = length (filter (\<lambda>i. rule i = ''no-missing-dependency'')
              (issues (checkDependencies parsed manifest config)))"
  proof (cases manifest)
    case None
    then show ?thesis by (simp add: checkDependencies_def)
  next
    case (Some pkg)
    obtain iss where I:
      "issues (checkDependencies parsed (Some pkg) config) =
         iss @ map (\<lambda>e. deprecatedIssue parsed (staleDependencySeverity config) (fst e) (snd e))
                 (filter (\<lambda>e. fst e \<in> set (allDepsOf pkg)) DEPRECATED_PACKAGES)"
      "\<forall>i \<in> set iss. rule i = ''no-missing-dependency''"
      "failed (checkDependencies parsed (Some pkg) config) = length iss"
      by (rule checkDependencies_issues)
    from I(2) have "filter (\<lambda>i. rule i = ''no-missing-dependency'') iss = iss"
      by (simp add: filter_id_conv)
    moreover have "filter (\<lambda>i. rule i = ''no-missing-dependency'')
        (map (\<lambda>e. deprecatedIssue parsed (staleDependencySeverity config) (fst e) (snd e))
           (filter (\<lambda>e. fst e \<in> set (allDepsOf pkg)) DEPRECATED_PACKAGES)) = []"
      by (simp add: filter_empty_conv deprecatedIssue_def)
    ultimately show ?thesis by (simp add: Some I(1,3))
  qed
  show "length (issues (checkDependencies parsed manifest config))
     = failed (checkDependencies parsed manifest config) +
       (case manifest of
          None \<Rightarrow> 0
        | Some pkg \<Rightarrow> length (filter (\<lambda>e. fst e \<in> set (allDepsOf pkg)) DEPRECATED_PACKAGES))"
  proof (cases manifest)
    case None
    then show ?thesis by (simp add: checkDependencies_def)
  next
    case (Some pkg)
    obtain iss where I:
      "issues (checkDependencies parsed (Some pkg) config) =
         iss @ map (\<lambda>e. deprecatedIssue parsed (staleDependencySeverity config) (fst e) (snd e))
                 (filter (\<lambda>e. fst e \<in> set (allDepsOf pkg)) DEPRECATED_PACKAGES)"
      "failed (checkDependencies parsed (Some pkg) config) = length iss"
      by (rule checkDependencies_issues)
    then show ?thesis by (simp add: Some)
  qed
qed

section \<open>The sections against their specification\<close>

lemma sectionsLoop_inv:
  "(case cur of Some c \<Rightarrow> startLine c < int idx | None \<Rightarrow> True) \<Longrightarrow>
   \<exists>new. closeSection (idx + length ls) (sectionsLoop ls idx secs cur) = secs @ new \<and>
     tiles (case cur of Some c \<Rightarrow> startLine c | None \<Rightarrow> int (idx + preamble ls)) new
       (int (idx + length ls)) \<and>
     map (\<lambda>s. (startLine s, title s)) new
       = (case cur of Some c \<Rightarrow> [(startLine c, title c)] | None \<Rightarrow> [])
         @ map headOf (headingLines idx ls)"
proof (induction ls arbitrary: idx secs cur)
  case Nil
  then show ?case
    by (cases cur) (simp_all add: closeSection_def preamble_def headingLines_def)
next
  case (Cons l ls)
  show ?case
  proof (cases "headingMatch l")
    case None
    let ?cur = "case cur of Some c \<Rightarrow> Some (c\<lparr>content := content c @ l @ [newline]\<rparr>)
                | None \<Rightarrow> None"
    have pre: "case ?cur of Some c \<Rightarrow> startLine c < int (Suc idx) | None \<Rightarrow> True"
      using Cons.prems by (cases cur) simp_all
    from Cons.IH [OF pre, of secs] obtain new where new:
      "closeSection (Suc idx + length ls) (sectionsLoop ls (Suc idx) secs ?cur) = secs @ new"
      "tiles (case ?cur of Some c \<Rightarrow> startLine c | None \<Rightarrow> int (Suc idx + preamble ls)) new
         (int (Suc idx + length ls))"
      "map (\<lambda>s. (startLine s, title s)) new
         = (case ?cur of Some c \<Rightarrow> [(startLine c, title c)] | None \<Rightarrow> [])
           @ map headOf (headingLines (Suc idx) ls)"
      by blast
    show ?thesis
    proof (intro exI conjI)
      show "closeSection (idx + length (l # ls)) (sectionsLoop (l # ls) idx secs cur) = secs @ new"
        using new(1) None by simp
      show "tiles (case cur of Some c \<Rightarrow> startLine c | None \<Rightarrow> int (idx + preamble (l # ls)))
              new (int (idx + length (l # ls)))"
        using new(2) None by (cases cur) (simp_all add: preamble_def)
      show "map (\<lambda>s. (startLine s, title s)) new
              = (case cur of Some c \<Rightarrow> [(startLine c, title c)] | None \<Rightarrow> [])
                @ map headOf (headingLines idx (l # ls))"
        using new(3) None by (cases cur) (simp_all add: headingLines_def)
    qed
  next
    case (Some h)
    let ?opened = "\<lparr>title = trim h, content = [], startLine = int idx, endLine = int idx\<rparr>"
    let ?secs = "case cur of Some c \<Rightarrow> secs @ [c\<lparr>endLine := int idx - 1\<rparr>] | None \<Rightarrow> secs"
    have pre: "case Some ?opened of Some c \<Rightarrow> startLine c < int (Suc idx) | None \<Rightarrow> True"
      by simp
    from Cons.IH [OF pre, of ?secs] obtain new where new:
      "closeSection (Suc idx + length ls) (sectionsLoop ls (Suc idx) ?secs (Some ?opened))
         = ?secs @ new"
      "tiles (int idx) new (int (Suc idx + length ls))"
      "map (\<lambda>s. (startLine s, title s)) new
         = [(int idx, trim h)] @ map headOf (headingLines (Suc idx) ls)"
      by auto
    have loop: "sectionsLoop (l # ls) idx secs cur = sectionsLoop ls (Suc idx) ?secs (Some ?opened)"
      using Some by simp
    have heads: "map headOf (headingLines idx (l # ls))
                   = (int idx, trim h) # map headOf (headingLines (Suc idx) ls)"
      using Some by (simp add: headingLines_def headOf_def)
    show ?thesis
    proof (cases cur)
      case None
      show ?thesis
      proof (intro exI conjI)
        show "closeSection (idx + length (l # ls)) (sectionsLoop (l # ls) idx secs cur) = secs @ new"
          unfolding loop using new(1) None by simp
        show "tiles (case cur of Some c \<Rightarrow> startLine c | None \<Rightarrow> int (idx + preamble (l # ls)))
                new (int (idx + length (l # ls)))"
          using new(2) None Some by (simp add: preamble_def)
        show "map (\<lambda>s. (startLine s, title s)) new
                = (case cur of Some c \<Rightarrow> [(startLine c, title c)] | None \<Rightarrow> [])
                  @ map headOf (headingLines idx (l # ls))"
          unfolding heads using new(3) None by simp
      qed
    next
      case (Some c)
      let ?closed = "c\<lparr>endLine := int idx - 1\<rparr>"
      from Cons.prems Some have lt: "startLine c < int idx" by simp
      show ?thesis
      proof (intro exI conjI)
        show "closeSection (idx + length (l # ls)) (sectionsLoop (l # ls) idx secs cur)
                = secs @ (?closed # new)"
          unfolding loop using new(1) Some by simp
        show "tiles (case cur of Some c \<Rightarrow> startLine c | None \<Rightarrow> int (idx + preamble (l # ls)))
                (?closed # new) (int (idx + length (l # ls)))"
          using new(2) Some lt by simp
        show "map (\<lambda>s. (startLine s, title s)) (?closed # new)
                = (case cur of Some c \<Rightarrow> [(startLine c, title c)] | None \<Rightarrow> [])
                  @ map headOf (headingLines idx (l # ls))"
          unfolding heads using new(3) Some by simp
      qed
    qed
  qed
qed

lemma takeWhile_all_length:
  "length (takeWhile P xs) = length xs \<longleftrightarrow> (\<forall>x \<in> set xs. P x)"
proof (induction xs)
  case Nil
  then show ?case by simp
next
  case (Cons x xs)
  have "length (takeWhile P xs) \<le> length xs" by (rule length_takeWhile_le)
  with Cons show ?case by auto
qed

lemma parseSections_closeSection:
  "parseSections ls = closeSection (length ls) (sectionsLoop ls 0 [] None)"
  by (simp add: parseSections_def closeSection_def)

text \<open>
  C3, as stated, is false: the lines before the first heading belong to no section. In
  the document of the two lines \<open>intro\<close> and \<open># A\<close> the only section is \<open>A\<close>, on line 1
  alone, and line 0 is not covered.
\<close>

theorem parseSections_misses_preamble:
  "parseSections [''intro'', ''# A'']
     = [\<lparr>title = ''A'', content = [], startLine = 1, endLine = 1\<rparr>] \<and>
   \<not> tiles 0 (parseSections [''intro'', ''# A'']) 2"
  by code_simp

text \<open>
  C3, amended. For every document, the sections are, in order, one per heading line
  (a line that matches \<open>/^(#{1,3})\s+(.+)/\<close>): the section starts at the index of its
  heading line and its title is the trimmed second capture of the match, the text of
  the heading after the marks. The line ranges of the sections cover, with no gap and no
  overlap, the lines from the first heading line to the last line of the document; the
  lines before the first heading are in no section, and a document with no heading has
  no section.
\<close>

theorem parseSections_tiles:
  "map (\<lambda>s. (startLine s, title s)) (parseSections ls) = map headOf (headingLines 0 ls) \<and>
   tiles (int (preamble ls)) (parseSections ls) (int (length ls)) \<and>
   (preamble ls = length ls \<longleftrightarrow> parseSections ls = [])"
proof -
  from sectionsLoop_inv [where cur = None and idx = 0 and ls = ls and secs = "[]"] obtain new where new:
    "parseSections ls = new"
    "tiles (int (preamble ls)) new (int (length ls))"
    "map (\<lambda>s. (startLine s, title s)) new = map headOf (headingLines 0 ls)"
    by (auto simp: parseSections_closeSection)
  have "preamble ls = length ls \<longleftrightarrow> new = []"
  proof
    assume "preamble ls = length ls"
    then have "\<forall>l \<in> set ls. headingMatch l = None"
      by (simp add: preamble_def takeWhile_all_length)
    then have "headingLines 0 ls = []"
      by (auto simp: headingLines_def filter_empty_conv in_set_enumerate_eq)
    with new(3) show "new = []" by simp
  next
    assume "new = []"
    with new(2) show "preamble ls = length ls" by simp
  qed
  with new show ?thesis by simp
qed

text \<open>
  Witness: a document of four lines with two headings; the sections are \<open>A\<close> on lines
  1 to 2 and \<open>B\<close> on line 3.
\<close>

theorem parseSections_tiles_witness:
  "map (\<lambda>s. (startLine s, endLine s, title s))
     (parseSections [''intro'', ''# A'', ''text'', ''## B''])
     = [(1, 2, ''A''), (3, 3, ''B'')] \<and>
   tiles 1 (parseSections [''intro'', ''# A'', ''text'', ''## B'']) 4"
proof -
  have p: "preamble [''intro'', ''# A'', ''text'', ''## B''] = 1"
    by code_simp
  have s: "map (\<lambda>s. (startLine s, endLine s, title s))
     (parseSections [''intro'', ''# A'', ''text'', ''## B''])
     = [(1, 2, ''A''), (3, 3, ''B'')]"
    by code_simp
  from parseSections_tiles [of "[''intro'', ''# A'', ''text'', ''## B'']"] p s
  show ?thesis by simp
qed

section \<open>Negated paths against their specification\<close>

lemma set_setAdd [simp]: "set (setAdd xs x) = insert x (set xs)"
  by (auto simp: setAdd_def)






section \<open>Fix mode against its specification\<close>

lemma buildFixAction_RemoveLine:
  "buildFixAction issue fileLines = Some (RemoveLine n) \<Longrightarrow> 1 \<le> n \<and> n \<le> length fileLines"
  by (auto simp: buildFixAction_def templateFix_def split: option.splits if_splits)

lemma offeredFixes_RemoveLine:
  assumes "RemoveLine n \<in> set (offeredFixes report fileContent)"
  shows "1 \<le> n \<and> n \<le> length (splitOn newline fileContent)"
proof -
  from assms obtain issue where
    "buildFixAction issue (splitOn newline fileContent) = Some (RemoveLine n)"
    by (auto simp: offeredFixes_def map_filter_def)
  then show ?thesis by (rule buildFixAction_RemoveLine)
qed

lemma fixesLoop_quit: "quit st \<Longrightarrow> fixesLoop fs st = Inr st"
  by (cases fs) simp_all

lemma fixesLoop_append:
  "fixesLoop (xs @ ys) st
     = (case fixesLoop xs st of Inl e \<Rightarrow> Inl e | Inr st' \<Rightarrow> fixesLoop ys st')"
proof (induction xs arbitrary: st)
  case Nil
  show ?case by simp
next
  case (Cons x xs)
  show ?case
  proof (cases "quit st")
    case True
    then show ?thesis by (simp add: fixesLoop_quit)
  next
    case False
    then show ?thesis by (cases "decide x st") (simp_all add: Cons.IH)
  qed
qed

lemma map_filter_append:
  "List.map_filter f (xs @ ys) = List.map_filter f xs @ List.map_filter f ys"
  by (simp add: map_filter_def)

lemma issuesLoop_fixesLoop:
  "issuesLoop fileLines iss st
     = fixesLoop (List.map_filter (\<lambda>issue. buildFixAction issue fileLines) iss) st"
proof (induction iss arbitrary: st)
  case Nil
  show ?case by (simp add: map_filter_simps)
next
  case (Cons issue iss)
  show ?case
  proof (cases "quit st")
    case True
    then show ?thesis by (simp add: fixesLoop_quit)
  next
    case False
    show ?thesis
    proof (cases "buildFixAction issue fileLines")
      case None
      with False show ?thesis by (simp add: map_filter_simps Cons.IH)
    next
      case (Some act)
      with False show ?thesis
        by (cases "decide act st") (simp_all add: map_filter_simps Cons.IH)
    qed
  qed
qed

lemma resultsLoop_fixesLoop:
  "resultsLoop fileLines rs st
     = fixesLoop (List.map_filter (\<lambda>issue. buildFixAction issue fileLines)
                    (concat (map issues rs))) st"
proof (induction rs arbitrary: st)
  case Nil
  show ?case by (simp add: map_filter_simps)
next
  case (Cons r rs)
  show ?case
  proof (cases "quit st")
    case True
    then show ?thesis by (simp add: fixesLoop_quit)
  next
    case False
    then show ?thesis
      by (cases "fixesLoop (List.map_filter (\<lambda>issue. buildFixAction issue fileLines) (issues r)) st")
         (simp_all add: map_filter_append fixesLoop_append issuesLoop_fixesLoop Cons.IH)
  qed
qed

lemma fixSession_fixesLoop:
  "fixSession report fileContent stdinLines
     = fixesLoop (offeredFixes report fileContent)
         \<lparr>linesToRemove = [], sectionsToAdd = [],
          pending = map (\<lambda>l. toLowerCase (trim l)) stdinLines, quit = False\<rparr>"
  by (simp add: fixSession_def offeredFixes_def resultsLoop_fixesLoop)

lemma acceptedFixes_subset:
  "acceptedFixes fs answers = Inr acc \<Longrightarrow>
     set acc \<subseteq> set fs \<and> AddSection Inherited \<notin> set acc"
proof (induction fs answers arbitrary: acc rule: acceptedFixes.induct)
  case (1 answers)
  then show ?case by simp
next
  case (2 f fs answers)
  from "2.prems" have ok: "f \<noteq> AddSection Inherited" by (auto split: if_splits)
  show ?case
  proof (cases answers)
    case Nil
    with "2.prems" ok have "acceptedFixes fs [] = Inr acc" by simp
    from "2.IH"(1) [OF ok Nil this] show ?thesis by auto
  next
    case (Cons a others)
    show ?thesis
    proof (cases "a = ''q'' \<or> a = ''quit''")
      case True
      with "2.prems" ok Cons have "acc = []" by simp
      then show ?thesis by simp
    next
      case nq: False
      show ?thesis
      proof (cases "a = ''y'' \<or> a = ''yes''")
        case True
        with "2.prems" ok Cons nq obtain acc' where
          acc': "acceptedFixes fs others = Inr acc'" and acc: "acc = f # acc'"
          by (cases "acceptedFixes fs others") auto
        from "2.IH"(2) [OF ok Cons nq True acc'] acc ok show ?thesis by auto
      next
        case False
        with "2.prems" ok Cons nq have "acceptedFixes fs others = Inr acc" by simp
        from "2.IH"(3) [OF ok Cons nq False this] show ?thesis by auto
      qed
    qed
  qed
qed

lemma set_sectionTexts:
  "sectionTexts (f # fs)
     = (case f of AddSection (Text t) \<Rightarrow> [t] | _ \<Rightarrow> []) @ sectionTexts fs"
  "sectionTexts [] = []"
  by (simp_all add: sectionTexts_def)

lemma prompt_quit:
  "pending st = a # others \<Longrightarrow> a = ''q'' \<or> a = ''quit'' \<Longrightarrow>
     prompt upd st = st\<lparr>pending := others, quit := True\<rparr>"
  by (auto simp: prompt_def ask_def Let_def)

lemma prompt_yes:
  "pending st = a # others \<Longrightarrow> a = ''y'' \<or> a = ''yes'' \<Longrightarrow>
     prompt upd st = upd (st\<lparr>pending := others\<rparr>)"
  by (auto simp: prompt_def ask_def Let_def)

lemma prompt_no:
  "pending st = a # others \<Longrightarrow> \<not> (a = ''q'' \<or> a = ''quit'') \<Longrightarrow>
   \<not> (a = ''y'' \<or> a = ''yes'') \<Longrightarrow>
     prompt upd st = st\<lparr>pending := others\<rparr>"
  by (auto simp: prompt_def ask_def Let_def)

lemma prompt_empty: "pending st = [] \<Longrightarrow> prompt upd st = st\<lparr>pending := []\<rparr>"
  by (simp add: prompt_def ask_def Let_def)

lemma decide_prompt:
  "f \<noteq> AddSection Inherited \<Longrightarrow>
     decide f st =
       Inr (prompt (case f of
                      RemoveLine n \<Rightarrow> (\<lambda>s. s\<lparr>linesToRemove := setAdd (linesToRemove s) n\<rparr>)
                    | AddSection v \<Rightarrow>
                        (\<lambda>s. s\<lparr>sectionsToAdd := sectionsToAdd s @ sectionTexts [AddSection v]\<rparr>))
              st)"
proof (cases f)
  case (RemoveLine n)
  then show ?thesis by simp
next
  case (AddSection v)
  assume "f \<noteq> AddSection Inherited"
  with AddSection obtain t where "v = Text t" by (cases v) auto
  with AddSection show ?thesis by (simp add: sectionTexts_def)
qed

lemma recorded:
  assumes "f \<noteq> AddSection Inherited"
    and "s2 = (case f of
                 RemoveLine n \<Rightarrow> (\<lambda>s. s\<lparr>linesToRemove := setAdd (linesToRemove s) n\<rparr>)
               | AddSection v \<Rightarrow>
                   (\<lambda>s. s\<lparr>sectionsToAdd := sectionsToAdd s @ sectionTexts [AddSection v]\<rparr>)) s1"
  shows "quit s2 = quit s1" and "pending s2 = pending s1"
    and "set (linesToRemove s2) = set (linesToRemove s1) \<union> {n. RemoveLine n = f}"
    and "distinct (linesToRemove s1) \<Longrightarrow> distinct (linesToRemove s2)"
    and "sectionsToAdd s2 = sectionsToAdd s1 @ sectionTexts [f]"
  using assms by (cases f; auto simp: setAdd_def sectionTexts_def)+

lemma fixesLoop_accepted:
  "\<not> quit st \<Longrightarrow>
   (case acceptedFixes fs (pending st) of
      Inl e \<Rightarrow> fixesLoop fs st = Inl e
    | Inr acc \<Rightarrow>
        (\<exists>st'. fixesLoop fs st = Inr st' \<and>
           set (linesToRemove st') = set (linesToRemove st) \<union> {n. RemoveLine n \<in> set acc} \<and>
           (distinct (linesToRemove st) \<longrightarrow> distinct (linesToRemove st')) \<and>
           sectionsToAdd st' = sectionsToAdd st @ sectionTexts acc))"
proof (induction fs arbitrary: st)
  case Nil
  then show ?case by (simp add: sectionTexts_def)
next
  case (Cons f fs)
  note nq = \<open>\<not> quit st\<close>
  show ?case
  proof (cases "f = AddSection Inherited")
    case True
    with nq show ?thesis by simp
  next
    case ok: False
    let ?U = "case f of
                RemoveLine n \<Rightarrow> (\<lambda>s. s\<lparr>linesToRemove := setAdd (linesToRemove s) n\<rparr>)
              | AddSection v \<Rightarrow>
                  (\<lambda>s. s\<lparr>sectionsToAdd := sectionsToAdd s @ sectionTexts [AddSection v]\<rparr>)"
    from nq decide_prompt [OF ok, of st]
    have loop: "fixesLoop (f # fs) st = fixesLoop fs (prompt ?U st)" by simp
    show ?thesis
    proof (cases "pending st")
      case Nil
      let ?s = "st\<lparr>pending := []\<rparr>"
      from Nil have p: "prompt ?U st = ?s" by (rule prompt_empty)
      from nq have "\<not> quit ?s" by simp
      from Cons.IH [OF this] have
        "case acceptedFixes fs [] of
           Inl e \<Rightarrow> fixesLoop fs ?s = Inl e
         | Inr acc \<Rightarrow>
             (\<exists>st'. fixesLoop fs ?s = Inr st' \<and>
                set (linesToRemove st') = set (linesToRemove st) \<union> {n. RemoveLine n \<in> set acc} \<and>
                (distinct (linesToRemove st) \<longrightarrow> distinct (linesToRemove st')) \<and>
                sectionsToAdd st' = sectionsToAdd st @ sectionTexts acc)"
        by (simp split: sum.splits)
      with ok Nil show ?thesis unfolding loop p by simp
    next
      case (Cons a others)
      note pend = Cons
      show ?thesis
      proof (cases "a = ''q'' \<or> a = ''quit''")
        case True
        let ?s = "st\<lparr>pending := others, quit := True\<rparr>"
        from pend True have p: "prompt ?U st = ?s" by (rule prompt_quit)
        have "fixesLoop fs ?s = Inr ?s" by (rule fixesLoop_quit) simp
        with ok pend True show ?thesis unfolding loop p by (simp add: sectionTexts_def)
      next
        case notq: False
        show ?thesis
        proof (cases "a = ''y'' \<or> a = ''yes''")
          case True
          let ?s = "?U (st\<lparr>pending := others\<rparr>)"
          from pend True have p: "prompt ?U st = ?s" by (rule prompt_yes)
          note r = recorded [OF ok refl, of "st\<lparr>pending := others\<rparr>"]
          from nq r(1) have q: "\<not> quit ?s" by simp
          from r(2) have pe: "pending ?s = others" by simp
          from r(3) have li: "set (linesToRemove ?s) = set (linesToRemove st) \<union> {n. RemoveLine n = f}"
            by simp
          from r(4) have di: "distinct (linesToRemove st) \<Longrightarrow> distinct (linesToRemove ?s)"
            by simp
          from r(5) have se: "sectionsToAdd ?s = sectionsToAdd st @ sectionTexts [f]" by simp
          have acc: "acceptedFixes (f # fs) (pending st)
                       = map_sum id ((#) f) (acceptedFixes fs others)"
            using ok pend notq True by simp
          show ?thesis
          proof (cases "acceptedFixes fs others")
            case (Inl e)
            with Cons.IH [OF q] have "fixesLoop fs ?s = Inl e" by (simp add: pe)
            with Inl show ?thesis unfolding loop p acc by simp
          next
            case (Inr acc')
            with Cons.IH [OF q] obtain st' where st':
              "fixesLoop fs ?s = Inr st'"
              "set (linesToRemove st') = set (linesToRemove ?s) \<union> {n. RemoveLine n \<in> set acc'}"
              "distinct (linesToRemove ?s) \<longrightarrow> distinct (linesToRemove st')"
              "sectionsToAdd st' = sectionsToAdd ?s @ sectionTexts acc'"
              by (auto simp: pe)
            have "set (linesToRemove st')
                    = set (linesToRemove st) \<union> {n. RemoveLine n \<in> set (f # acc')}"
              unfolding st'(2) li by auto
            moreover have "distinct (linesToRemove st) \<longrightarrow> distinct (linesToRemove st')"
              using st'(3) di by blast
            moreover have "sectionsToAdd st' = sectionsToAdd st @ sectionTexts (f # acc')"
              unfolding st'(4) se by (simp add: sectionTexts_def)
            ultimately show ?thesis unfolding loop p acc Inr using st'(1) by simp
          qed
        next
          case False
          let ?s = "st\<lparr>pending := others\<rparr>"
          from pend notq False have p: "prompt ?U st = ?s" by (rule prompt_no)
          from nq have "\<not> quit ?s" by simp
          from Cons.IH [OF this] have
            "case acceptedFixes fs others of
               Inl e \<Rightarrow> fixesLoop fs ?s = Inl e
             | Inr acc \<Rightarrow>
                 (\<exists>st'. fixesLoop fs ?s = Inr st' \<and>
                    set (linesToRemove st') = set (linesToRemove st) \<union> {n. RemoveLine n \<in> set acc} \<and>
                    (distinct (linesToRemove st) \<longrightarrow> distinct (linesToRemove st')) \<and>
                    sectionsToAdd st' = sectionsToAdd st @ sectionTexts acc)"
            by (simp split: sum.splits)
          with ok pend notq False show ?thesis unfolding loop p by simp
        qed
      qed
    qed
  qed
qed

lemma splice1_nat: "splice1 (int j) xs = take j xs @ drop (Suc j) xs"
proof (cases "j \<le> length xs")
  case True
  then have "min (int j) (int (length xs)) = int j" by simp
  then show ?thesis by (simp add: splice1_def Let_def)
next
  case False
  then have "min (int j) (int (length xs)) = int (length xs)" by simp
  with False show ?thesis by (simp add: splice1_def Let_def)
qed

lemma nths_cong_length:
  "(\<And>i. i < length xs \<Longrightarrow> i \<in> A \<longleftrightarrow> i \<in> B) \<Longrightarrow> nths xs A = nths xs B"
  unfolding nths_def
  by (rule arg_cong [where f = "map fst"], rule filter_cong) (auto dest: set_zip_rightD)

lemma nths_skip:
  assumes "\<forall>i \<ge> length as. i \<in> A"
  shows "nths (as @ b # bs) (A - {length as}) = nths (as @ bs) A"
proof -
  have 1: "nths as (A - {length as}) = nths as A"
    by (rule nths_cong_length) auto
  have 2: "{j. j + length as \<in> A} = UNIV" "{j. Suc (j + length as) \<in> A} = UNIV"
    using assms by auto
  show ?thesis
    by (simp add: nths_append nths_Cons 1 2 nths_all)
qed

lemma nths_remove:
  assumes "\<forall>i \<ge> j. i \<in> A"
  shows "nths (take j xs @ drop (Suc j) xs) A = nths xs (A - {j})"
proof (cases "j < length xs")
  case True
  then have len: "length (take j xs) = j" by simp
  from assms have "\<forall>i \<ge> length (take j xs). i \<in> A" by (simp only: len)
  from nths_skip [OF this, of "xs ! j" "drop (Suc j) xs"]
  show ?thesis by (simp only: len id_take_nth_drop [OF True, symmetric])
next
  case False
  then have "nths xs A = nths xs (A - {j})" by (intro nths_cong_length) auto
  with False show ?thesis by simp
qed

lemma fold_splice1:
  "sorted (rev ns) \<Longrightarrow> distinct ns \<Longrightarrow> \<forall>n \<in> set ns. 1 \<le> n \<Longrightarrow>
   fold (\<lambda>lineNum ls. splice1 (int lineNum - 1) ls) ns xs = nths xs {i. Suc i \<notin> set ns}"
proof (induction ns arbitrary: xs)
  case Nil
  then show ?case by (simp add: nths_all)
next
  case (Cons n ns)
  from Cons.prems have n: "1 \<le> n" and le: "\<forall>m \<in> set ns. m \<le> n" and "n \<notin> set ns"
    and rest: "sorted (rev ns)" "distinct ns" "\<forall>m \<in> set ns. 1 \<le> m"
    by (simp_all add: sorted_append)
  then have below: "\<forall>m \<in> set ns. m < n"
    by (metis le_neq_implies_less)
  from n have idx: "int n - 1 = int (n - 1)" by simp
  have "fold (\<lambda>lineNum ls. splice1 (int lineNum - 1) ls) (n # ns) xs
          = nths (take (n - 1) xs @ drop (Suc (n - 1)) xs) {i. Suc i \<notin> set ns}"
    by (simp only: fold_Cons comp_apply idx splice1_nat Cons.IH [OF rest])
  also have "\<dots> = nths xs ({i. Suc i \<notin> set ns} - {n - 1})"
    using below by (intro nths_remove) auto
  also have "{i. Suc i \<notin> set ns} - {n - 1} = {i. Suc i \<notin> set (n # ns)}"
    using n by auto
  finally show ?case .
qed

lemma applyFixes_nths:
  assumes "distinct toRemove" and "\<forall>n \<in> set toRemove. 1 \<le> n"
  shows "applyFixes fileLines toRemove toAdd =
           joinWith [newline]
             (nths fileLines {i. Suc i \<notin> set toRemove} @
              (if toAdd = [] then [] else splitOn newline (joinWith [newline] toAdd)))"
proof -
  have "fold (\<lambda>lineNum ls. splice1 (int lineNum - 1) ls) (rev (sort toRemove)) fileLines
          = nths fileLines {i. Suc i \<notin> set (rev (sort toRemove))}"
    using assms by (intro fold_splice1) simp_all
  then show ?thesis by (simp add: applyFixes_def Let_def)
qed

lemma nths_two_removed:
  assumes "a < b" and "b < length xs"
  shows "nths xs (- {a, b}) = take a xs @ drop (Suc a) (take b xs) @ drop (Suc b) xs"
proof -
  have L: "fold (\<lambda>lineNum ls. splice1 (int lineNum - 1) ls) [Suc b, Suc a] xs
             = nths xs {i. Suc i \<notin> set [Suc b, Suc a]}"
    using assms by (intro fold_splice1) simp_all
  have "{i. Suc i \<notin> set [Suc b, Suc a]} = - {a, b}" by auto
  with L have "nths xs (- {a, b}) = splice1 (int a) (splice1 (int b) xs)" by simp
  also have "\<dots> = take a xs @ drop (Suc a) (take b xs) @ drop (Suc b) xs"
    using assms by (simp add: splice1_nat min_def)
  finally show ?thesis .
qed

lemma accepted_empty:
  "AddSection Inherited \<notin> set acc \<Longrightarrow>
     {n. RemoveLine n \<in> set acc} = {} \<and> sectionTexts acc = [] \<longleftrightarrow> acc = []"
proof (cases acc)
  case Nil
  then show ?thesis by (simp add: sectionTexts_def)
next
  case (Cons f fs)
  assume "AddSection Inherited \<notin> set acc"
  with Cons have ok: "f \<noteq> AddSection Inherited" by auto
  show ?thesis
  proof (cases f)
    case (RemoveLine n)
    with Cons have "n \<in> {n. RemoveLine n \<in> set acc}" by simp
    with Cons show ?thesis by blast
  next
    case (AddSection v)
    with ok obtain t where "v = Text t" by (cases v) auto
    with AddSection Cons show ?thesis by (simp add: sectionTexts_def)
  qed
qed

lemma sectionTexts_removals:
  "\<forall>f \<in> set acc. \<exists>n. f = RemoveLine n \<Longrightarrow> sectionTexts acc = []"
  by (induction acc) (auto simp: sectionTexts_def)

lemma runFixMode_accepted:
  "runFixMode report fileContent stdinLines =
     (case acceptedFixes (offeredFixes report fileContent)
             (map (\<lambda>l. toLowerCase (trim l)) stdinLines) of
        Inl e \<Rightarrow> Inl e
      | Inr acc \<Rightarrow>
          Inr (if acc = [] then []
               else [joinWith [newline]
                       (nths (splitOn newline fileContent) {i. RemoveLine (Suc i) \<notin> set acc} @
                        (if sectionTexts acc = [] then []
                         else splitOn newline (joinWith [newline] (sectionTexts acc))))]))"
proof (cases "concat (map issues (results report)) = []")
  case True
  have "offeredFixes report fileContent = []"
    by (simp only: offeredFixes_def True map_filter_simps)
  with True show ?thesis by (simp add: runFixMode_def)
next
  case issues: False
  let ?fs = "offeredFixes report fileContent"
  let ?answers = "map (\<lambda>l. toLowerCase (trim l)) stdinLines"
  let ?st0 = "\<lparr>linesToRemove = [], sectionsToAdd = [], pending = ?answers, quit = False\<rparr>"
  have session: "fixSession report fileContent stdinLines = fixesLoop ?fs ?st0"
    by (rule fixSession_fixesLoop)
  have "\<not> quit ?st0" by simp
  note loop = fixesLoop_accepted [OF this, of ?fs]
  show ?thesis
  proof (cases "acceptedFixes ?fs ?answers")
    case (Inl e)
    with loop have "fixesLoop ?fs ?st0 = Inl e" by simp
    with Inl issues show ?thesis by (simp add: runFixMode_def session)
  next
    case (Inr acc)
    with loop obtain st' where st':
      "fixesLoop ?fs ?st0 = Inr st'"
      "set (linesToRemove st') = {n. RemoveLine n \<in> set acc}"
      "distinct (linesToRemove st')"
      "sectionsToAdd st' = sectionTexts acc"
      by auto
    from acceptedFixes_subset [OF Inr] have sub: "set acc \<subseteq> set ?fs"
      and ok: "AddSection Inherited \<notin> set acc"
      by simp_all
    have pos: "\<forall>n \<in> set (linesToRemove st'). 1 \<le> n"
      using st'(2) sub offeredFixes_RemoveLine [of _ report fileContent] by blast
    have none: "length (linesToRemove st') + length (sectionsToAdd st') = 0 \<longleftrightarrow> acc = []"
    proof -
      have "length (linesToRemove st') + length (sectionsToAdd st') = 0
              \<longleftrightarrow> set (linesToRemove st') = {} \<and> sectionsToAdd st' = []"
        by simp
      also have "\<dots> \<longleftrightarrow> acc = []"
        unfolding st'(2,4) by (rule accepted_empty [OF ok])
      finally show ?thesis .
    qed
    have kept: "{i. Suc i \<notin> set (linesToRemove st')} = {i. RemoveLine (Suc i) \<notin> set acc}"
      unfolding st'(2) by simp
    have "runFixMode report fileContent stdinLines =
            Inr (if acc = [] then []
                 else [applyFixes (splitOn newline fileContent) (linesToRemove st')
                         (sectionsToAdd st')])"
      using issues none by (simp add: runFixMode_def session st'(1) Let_def)
    also have "applyFixes (splitOn newline fileContent) (linesToRemove st') (sectionsToAdd st')
        = joinWith [newline]
            (nths (splitOn newline fileContent) {i. RemoveLine (Suc i) \<notin> set acc} @
             (if sectionTexts acc = [] then []
              else splitOn newline (joinWith [newline] (sectionTexts acc))))"
      unfolding applyFixes_nths [OF st'(3) pos] kept st'(4) ..
    finally show ?thesis by (simp add: Inr)
  qed
qed

lemma buildFixAction_Inherited:
  "buildFixAction issue fileLines = Some (AddSection Inherited) \<Longrightarrow>
     rule issue \<in> set objectPrototypeKeys"
  by (auto simp: buildFixAction_def templateFix_def getSectionTemplate_def templateOf_def
           split: option.splits if_splits)

lemma offeredFixes_Inherited:
  assumes "\<forall>i \<in> set (concat (map issues (results report))). rule i \<notin> set objectPrototypeKeys"
  shows "AddSection Inherited \<notin> set (offeredFixes report fileContent)"
proof
  assume "AddSection Inherited \<in> set (offeredFixes report fileContent)"
  then obtain issue where "issue \<in> set (concat (map issues (results report)))"
    and "buildFixAction issue (splitOn newline fileContent) = Some (AddSection Inherited)"
    unfolding offeredFixes_def map_filter_def by (auto simp del: set_concat)
  with assms buildFixAction_Inherited show False by blast
qed

lemma acceptedFixes_total:
  "AddSection Inherited \<notin> set fs \<Longrightarrow> \<exists>acc. acceptedFixes fs answers = Inr acc"
proof (induction fs answers rule: acceptedFixes.induct)
  case (1 answers)
  show ?case by simp
next
  case (2 f fs answers)
  from "2.prems" have ok: "f \<noteq> AddSection Inherited" and rest: "AddSection Inherited \<notin> set fs"
    by auto
  show ?case
  proof (cases answers)
    case Nil
    from "2.IH"(1) [OF ok Nil rest] ok Nil show ?thesis by simp
  next
    case (Cons a others)
    show ?thesis
    proof (cases "a = ''q'' \<or> a = ''quit''")
      case True
      with ok Cons show ?thesis by simp
    next
      case nq: False
      show ?thesis
      proof (cases "a = ''y'' \<or> a = ''yes''")
        case True
        from "2.IH"(2) [OF ok Cons nq True rest] obtain acc where
          "acceptedFixes fs others = Inr acc" ..
        with ok Cons nq True show ?thesis by simp
      next
        case False
        from "2.IH"(3) [OF ok Cons nq False rest] ok Cons nq False show ?thesis by simp
      qed
    qed
  qed
qed

text \<open>
  A report whose issue has the rule \<open>constructor\<close>: the template found is the inherited
  \<open>Object.prototype.constructor\<close>, and displaying the fix throws.
\<close>

lemma runFixMode_inherited_template:
  "runFixMode
     \<lparr>file' = ''AGENTS.md'', score = 98,
      results = [\<lparr>checker = ''structure'', issues = [infoIssue\<lparr>rule := ''constructor''\<rparr>],
                  passed = 0, failed = 1\<rparr>],
      totalIssues = 1, errors = 0, warnings = 0, infos = 1, timestamp = ''2026-01-01''\<rparr>
     ''# A'' [''y'']
   = Inl TypeError"
  by code_simp

text \<open>
  C6. The content that a session writes is determined by the fixes accepted in it, that
  is by the report, the file and the answers. If no fix is accepted, nothing is written.
  Otherwise there is exactly one write, of the lines of the file without the lines whose
  removal was accepted, in their original order (the code removes them in descending
  order of line number), followed by the texts of the accepted sections in the order of
  acceptance; the whole joined by newlines. In particular, in a session where the
  accepted fixes are the removal of line 23 and the removal of line 41 and nothing else,
  the file has at least 41 lines and the one content written is the original with
  exactly the lines 23 and 41 (indices 22 and 40) deleted, the other lines in their
  original order. The session ends with an exception, and writes nothing, only when it
  offers a section for a rule that names a member of \<open>Object.prototype\<close>; no rule of
  the checkers does, and with no such rule in the report the session has its accepted
  fixes.
\<close>

theorem runFixMode_writes_accepted_fixes:
  "runFixMode report fileContent stdinLines =
     (case acceptedFixes (offeredFixes report fileContent)
             (map (\<lambda>l. toLowerCase (trim l)) stdinLines) of
        Inl e \<Rightarrow> Inl e
      | Inr acc \<Rightarrow>
          Inr (if acc = [] then []
               else [joinWith [newline]
                       (nths (splitOn newline fileContent) {i. RemoveLine (Suc i) \<notin> set acc} @
                        (if sectionTexts acc = [] then []
                         else splitOn newline (joinWith [newline] (sectionTexts acc))))])) \<and>
   (\<forall>acc. acceptedFixes (offeredFixes report fileContent)
             (map (\<lambda>l. toLowerCase (trim l)) stdinLines) = Inr acc \<and>
          set acc = {RemoveLine 23, RemoveLine 41} \<longrightarrow>
      41 \<le> length (splitOn newline fileContent) \<and>
      runFixMode report fileContent stdinLines =
        Inr [joinWith [newline]
               (take 22 (splitOn newline fileContent) @
                drop 23 (take 40 (splitOn newline fileContent)) @
                drop 41 (splitOn newline fileContent))] \<and>
      splitOn newline fileContent =
        take 22 (splitOn newline fileContent) @ [splitOn newline fileContent ! 22] @
        drop 23 (take 40 (splitOn newline fileContent)) @ [splitOn newline fileContent ! 40] @
        drop 41 (splitOn newline fileContent)) \<and>
   ((\<forall>i \<in> set (concat (map issues (results report))). rule i \<notin> set objectPrototypeKeys) \<longrightarrow>
      (\<exists>acc. acceptedFixes (offeredFixes report fileContent)
               (map (\<lambda>l. toLowerCase (trim l)) stdinLines) = Inr acc))"
proof (intro conjI allI impI)
  let ?ls = "splitOn newline fileContent"
  let ?accepted = "acceptedFixes (offeredFixes report fileContent)
                     (map (\<lambda>l. toLowerCase (trim l)) stdinLines)"
  show "runFixMode report fileContent stdinLines =
     (case ?accepted of
        Inl e \<Rightarrow> Inl e
      | Inr acc \<Rightarrow>
          Inr (if acc = [] then []
               else [joinWith [newline]
                       (nths ?ls {i. RemoveLine (Suc i) \<notin> set acc} @
                        (if sectionTexts acc = [] then []
                         else splitOn newline (joinWith [newline] (sectionTexts acc))))]))"
    by (rule runFixMode_accepted)
  fix acc
  assume scenario: "?accepted = Inr acc \<and> set acc = {RemoveLine 23, RemoveLine 41}"
  then have acc: "?accepted = Inr acc" and two: "set acc = {RemoveLine 23, RemoveLine 41}"
    by simp_all
  from two have "RemoveLine 41 \<in> set acc" by simp
  moreover from acceptedFixes_subset [OF acc]
  have "set acc \<subseteq> set (offeredFixes report fileContent)" by (rule conjunct1)
  ultimately have "RemoveLine 41 \<in> set (offeredFixes report fileContent)" by (rule rev_subsetD)
  from offeredFixes_RemoveLine [OF this] show len: "41 \<le> length ?ls" by (rule conjunct2)
  have ne: "acc \<noteq> []"
  proof
    assume "acc = []"
    with two show False by simp
  qed
  have removals: "\<forall>f \<in> set acc. \<exists>n. f = RemoveLine n"
    unfolding two by blast
  have secs: "sectionTexts acc = []"
    by (rule sectionTexts_removals [OF removals])
  have keep: "{i. RemoveLine (Suc i) \<notin> set acc} = - {22, 40}"
  proof (rule set_eqI)
    fix i
    have "Suc i = 23 \<longleftrightarrow> i = 22" "Suc i = 41 \<longleftrightarrow> i = 40" by presburger+
    then show "i \<in> {i. RemoveLine (Suc i) \<notin> set acc} \<longleftrightarrow> i \<in> - {22, 40}"
      unfolding two by simp
  qed
  have "22 < (40 :: nat)" by simp
  moreover from len have "40 < length ?ls" by simp
  ultimately have "nths ?ls (- {22, 40})
                     = take 22 ?ls @ drop (Suc 22) (take 40 ?ls) @ drop (Suc 40) ?ls"
    by (rule nths_two_removed)
  then have cut: "nths ?ls (- {22, 40}) = take 22 ?ls @ drop 23 (take 40 ?ls) @ drop 41 ?ls"
    by (simp only: eval_nat_numeral)
  have "runFixMode report fileContent stdinLines =
          Inr [joinWith [newline]
                 (nths ?ls {i. RemoveLine (Suc i) \<notin> set acc} @
                  (if sectionTexts acc = [] then []
                   else splitOn newline (joinWith [newline] (sectionTexts acc))))]"
    unfolding runFixMode_accepted acc using ne by simp
  then show "runFixMode report fileContent stdinLines =
        Inr [joinWith [newline] (take 22 ?ls @ drop 23 (take 40 ?ls) @ drop 41 ?ls)]"
    unfolding secs keep cut by simp
  have "?ls = take 40 ?ls @ [?ls ! 40] @ drop 41 ?ls"
    using len id_take_nth_drop [of 40 ?ls] by simp
  moreover have "take 40 ?ls = take 22 (take 40 ?ls) @ [take 40 ?ls ! 22] @ drop 23 (take 40 ?ls)"
    using len id_take_nth_drop [of 22 "take 40 ?ls"] by simp
  then have "take 40 ?ls = take 22 ?ls @ [?ls ! 22] @ drop 23 (take 40 ?ls)"
    by (simp add: min_def)
  ultimately show "?ls = take 22 ?ls @ [?ls ! 22] @ drop 23 (take 40 ?ls) @ [?ls ! 40] @ drop 41 ?ls"
    by (metis append.assoc)
next
  assume "\<forall>i \<in> set (concat (map issues (results report))). rule i \<notin> set objectPrototypeKeys"
  then have "AddSection Inherited \<notin> set (offeredFixes report fileContent)"
    by (rule offeredFixes_Inherited)
  then show "\<exists>acc. acceptedFixes (offeredFixes report fileContent)
               (map (\<lambda>l. toLowerCase (trim l)) stdinLines) = Inr acc"
    by (rule acceptedFixes_total)
qed

text \<open>
  Witness: a file of the 42 lines \<open>A\<close> to \<open>Z\<close>, \<open>a\<close> to \<open>p\<close>, a report with issues on
  the lines 23, 30 and 41, and the answers \<open>y\<close>, \<open>n\<close> and \<open>yes\<close>. The accepted fixes
  are the removals of the lines 23 and 41, and the content written is the file without
  its lines \<open>W\<close> and \<open>o\<close>.
\<close>

theorem runFixMode_writes_accepted_fixes_witness:
  "runFixMode
     \<lparr>file' = ''AGENTS.md'', score = 55,
      results = [\<lparr>checker = ''filesystem'',
                  issues = [errorIssue\<lparr>line := Some 23\<rparr>, errorIssue\<lparr>line := Some 30\<rparr>,
                            errorIssue\<lparr>line := Some 41\<rparr>],
                  passed = 0, failed = 3\<rparr>],
      totalIssues = 3, errors = 3, warnings = 0, infos = 0, timestamp = ''2026-01-01''\<rparr>
     ''A\<newline>B\<newline>C\<newline>D\<newline>E\<newline>F\<newline>G\<newline>H\<newline>I\<newline>J\<newline>K\<newline>L\<newline>M\<newline>N\<newline>O\<newline>P\<newline>Q\<newline>R\<newline>S\<newline>T\<newline>U\<newline>V\<newline>W\<newline>X\<newline>Y\<newline>Z\<newline>a\<newline>b\<newline>c\<newline>d\<newline>e\<newline>f\<newline>g\<newline>h\<newline>i\<newline>j\<newline>k\<newline>l\<newline>m\<newline>n\<newline>o\<newline>p''
     [''y'', ''n'', ''yes'']
   = Inr [''A\<newline>B\<newline>C\<newline>D\<newline>E\<newline>F\<newline>G\<newline>H\<newline>I\<newline>J\<newline>K\<newline>L\<newline>M\<newline>N\<newline>O\<newline>P\<newline>Q\<newline>R\<newline>S\<newline>T\<newline>U\<newline>V\<newline>X\<newline>Y\<newline>Z\<newline>a\<newline>b\<newline>c\<newline>d\<newline>e\<newline>f\<newline>g\<newline>h\<newline>i\<newline>j\<newline>k\<newline>l\<newline>m\<newline>n\<newline>p'']"
proof -
  let ?report = "\<lparr>file' = ''AGENTS.md'', score = 55,
      results = [\<lparr>checker = ''filesystem'',
                  issues = [errorIssue\<lparr>line := Some 23\<rparr>, errorIssue\<lparr>line := Some 30\<rparr>,
                            errorIssue\<lparr>line := Some 41\<rparr>],
                  passed = 0, failed = 3\<rparr>],
      totalIssues = 3, errors = 3, warnings = 0, infos = 0, timestamp = ''2026-01-01''\<rparr>"
  let ?content = "''A\<newline>B\<newline>C\<newline>D\<newline>E\<newline>F\<newline>G\<newline>H\<newline>I\<newline>J\<newline>K\<newline>L\<newline>M\<newline>N\<newline>O\<newline>P\<newline>Q\<newline>R\<newline>S\<newline>T\<newline>U\<newline>V\<newline>W\<newline>X\<newline>Y\<newline>Z\<newline>a\<newline>b\<newline>c\<newline>d\<newline>e\<newline>f\<newline>g\<newline>h\<newline>i\<newline>j\<newline>k\<newline>l\<newline>m\<newline>n\<newline>o\<newline>p''"
  have acc: "acceptedFixes (offeredFixes ?report ?content)
               (map (\<lambda>l. toLowerCase (trim l)) [''y'', ''n'', ''yes''])
             = Inr [RemoveLine 23, RemoveLine 41]"
    by code_simp
  have ls: "joinWith [newline]
              (take 22 (splitOn newline ?content) @
               drop 23 (take 40 (splitOn newline ?content)) @
               drop 41 (splitOn newline ?content))
            = ''A\<newline>B\<newline>C\<newline>D\<newline>E\<newline>F\<newline>G\<newline>H\<newline>I\<newline>J\<newline>K\<newline>L\<newline>M\<newline>N\<newline>O\<newline>P\<newline>Q\<newline>R\<newline>S\<newline>T\<newline>U\<newline>V\<newline>X\<newline>Y\<newline>Z\<newline>a\<newline>b\<newline>c\<newline>d\<newline>e\<newline>f\<newline>g\<newline>h\<newline>i\<newline>j\<newline>k\<newline>l\<newline>m\<newline>n\<newline>p''"
    by code_simp
  have "set [RemoveLine 23, RemoveLine 41] = {RemoveLine 23, RemoveLine 41}" by simp
  with acc runFixMode_writes_accepted_fixes [of ?report ?content "[''y'', ''n'', ''yes'']"]
  have "runFixMode ?report ?content [''y'', ''n'', ''yes''] =
        Inr [joinWith [newline]
               (take 22 (splitOn newline ?content) @
                drop 23 (take 40 (splitOn newline ?content)) @
                drop 41 (splitOn newline ?content))]"
    by blast
  then show ?thesis by (simp only: ls)
qed

end
